theory Spec2Isabelle
  imports Main "HOL-Library.Word"
begin

unbundle bit_operations_syntax

section \<open>Output synchronisation: \<^verbatim>\<open>Output::Sync\<close> (output.hpp)\<close>

text \<open>
  \<^verbatim>\<open>size_t\<close> is a 64-bit unsigned integer: \<open>+\<close> and \<open>-\<close> wrap around.
  The cancel sentinel \<^verbatim>\<open>STOP = UNDEFINED_SIZE\<close> is declared in ugrep.hpp, which is
  not among the sources, so every operation takes the sentinel as its first argument.
\<close>

type_synonym size_t = "64 word"

text \<open>
  Modelled from the spec: \<^verbatim>\<open>reflex::Bits\<close> (reflex/bits.h) is not among the sources.
  The spec asks of the \<^verbatim>\<open>completed\<close> bitset: test-bit-0, right-shift-by-1 and
  set-bit-n, on a bitset that grows on demand. A bitset is the natural number whose
  binary digits are its bits.
\<close>

type_synonym Bits = nat

definition Bits_test :: "Bits \<Rightarrow> nat \<Rightarrow> bool" where
  "Bits_test b n = bit b n"

definition Bits_rshift :: "Bits \<Rightarrow> Bits" where
  "Bits_rshift b = drop_bit 1 b"

definition Bits_insert :: "Bits \<Rightarrow> nat \<Rightarrow> Bits" where
  "Bits_insert b n = set_bit n b"

text \<open>The number of bits set in a bitset (used to bound how far \<^verbatim>\<open>last\<close> can advance).\<close>

definition popcount :: "Bits \<Rightarrow> nat" where
  "popcount c = card {i. bit c i}"

datatype Mode = UNORDERED | ORDERED

text \<open>
  The state of a \<^verbatim>\<open>Sync\<close>. A \<^verbatim>\<open>std::mutex\<close> is owned by at most one
  \<^verbatim>\<open>std::unique_lock\<close>: \<open>mutex\<close> is the identity of the lock object that owns it,
  so \<^verbatim>\<open>lock->owns_lock()\<close> is \<open>mutex s = Some lock\<close>. \<open>turn\<close> counts the
  \<^verbatim>\<open>notify_all\<close> broadcasts on the condition variable. \<^verbatim>\<open>bits_mutex\<close> is taken and
  dropped inside \<^verbatim>\<open>finish\<close> and \<^verbatim>\<open>cancel\<close>; with every call atomic it has no state.
\<close>

record Sync =
  mode :: Mode
  mutex :: "nat option"
  turn :: nat
  next_slot :: size_t
  last_slot :: size_t
  completed :: Bits

definition Sync_init :: "Mode \<Rightarrow> Sync" where
  "Sync_init m =
     \<lparr>mode = m, mutex = None, turn = 0, next_slot = 0, last_slot = 0, completed = 0\<rparr>"

text \<open>
  A call either returns, or its thread is suspended: in \<^verbatim>\<open>lock->lock()\<close> on a mutex
  that another lock owns (\<open>Blocks\<close>), or in \<^verbatim>\<open>turn.wait(*lock)\<close>, which gives the mutex
  back while it waits (\<open>Waits\<close>). A suspended call has not changed the state.
\<close>

datatype 'a call_result = Returns 'a | Blocks | Waits

definition owns_lock :: "Sync \<Rightarrow> nat \<Rightarrow> bool" where
  "owns_lock s lk = (mutex s = Some lk)"

definition acquire :: "size_t \<Rightarrow> Sync \<Rightarrow> nat \<Rightarrow> size_t \<Rightarrow> Sync call_result" where
  "acquire STOP s lk slot =
     (case mode s of
        UNORDERED \<Rightarrow>
          if \<not> owns_lock s lk
          then (if mutex s = None then Returns (s\<lparr>mutex := Some lk\<rparr>) else Blocks)
          else Returns s
      | ORDERED \<Rightarrow>
          if \<not> owns_lock s lk
          then (if mutex s \<noteq> None then Blocks
                else if last_slot s \<noteq> STOP \<and> slot \<noteq> last_slot s then Waits
                else Returns (s\<lparr>mutex := Some lk\<rparr>))
          else Returns s)"

definition try_acquire :: "Sync \<Rightarrow> nat \<Rightarrow> bool \<times> Sync" where
  "try_acquire s lk =
     (case mode s of
        UNORDERED \<Rightarrow>
          if owns_lock s lk then (True, s)
          else if mutex s = None then (True, s\<lparr>mutex := Some lk\<rparr>)
          else (False, s)
      | ORDERED \<Rightarrow> (owns_lock s lk, s))"

definition release :: "Sync \<Rightarrow> nat \<Rightarrow> Sync" where
  "release s lk =
     (case mode s of
        UNORDERED \<Rightarrow> if owns_lock s lk then s\<lparr>mutex := None\<rparr> else s
      | ORDERED \<Rightarrow> s)"

text \<open>
  The loop of \<^verbatim>\<open>finish\<close>:
  \<^verbatim>\<open>do { ++last; completed.rshift(); } while (completed[0]);\<close>
\<close>

function bump :: "size_t \<Rightarrow> Bits \<Rightarrow> size_t \<times> Bits" where
  "bump l c =
     (let l' = l + 1; c' = Bits_rshift c
      in if Bits_test c' 0 then bump l' c' else (l', c'))"
  by pat_completeness auto
termination
proof (relation "measure (\<lambda>(l, c). c)")
  show "wf (measure (\<lambda>(l::size_t, c::Bits). c))"
    by simp
next
  fix l :: size_t and c :: Bits and x xa
  assume "xa = Bits_rshift c" and "Bits_test xa 0"
  then have "odd (c div 2)"
    by (simp add: Bits_test_def Bits_rshift_def bit_0 drop_bit_eq_div)
  then have "c div 2 < c"
    by (cases "c = 0") auto
  then show "((x, xa), (l, c)) \<in> measure (\<lambda>(l, c). c)"
    using \<open>xa = Bits_rshift c\<close> by (simp add: Bits_rshift_def drop_bit_eq_div)
qed

declare bump.simps [simp del]

definition finish :: "size_t \<Rightarrow> Sync \<Rightarrow> nat \<Rightarrow> size_t \<Rightarrow> Sync call_result" where
  "finish STOP s lk slot =
     (case mode s of
        UNORDERED \<Rightarrow> Returns s
      | ORDERED \<Rightarrow>
          if last_slot s = STOP
          then Returns ((if owns_lock s lk then s\<lparr>mutex := None\<rparr> else s)
                          \<lparr>turn := Suc (turn s)\<rparr>)
          else if slot = last_slot s
          then (if \<not> owns_lock s lk \<and> mutex s \<noteq> None then Blocks
                else (case bump (last_slot s) (completed s) of
                        (l, c) \<Rightarrow>
                          Returns (s\<lparr>last_slot := l, completed := c, mutex := None,
                                     turn := Suc (turn s)\<rparr>)))
          else Returns (s\<lparr>completed :=
                  Bits_insert (completed s) (unat (slot - last_slot s))\<rparr>))"

definition cancel :: "size_t \<Rightarrow> Sync \<Rightarrow> Sync" where
  "cancel STOP s =
     (case mode s of
        UNORDERED \<Rightarrow> s\<lparr>last_slot := STOP\<rparr>
      | ORDERED \<Rightarrow> s\<lparr>last_slot := STOP, turn := Suc (turn s)\<rparr>)"

definition cancelled :: "size_t \<Rightarrow> Sync \<Rightarrow> bool" where
  "cancelled STOP s = (last_slot s = STOP)"

text \<open>
  Calls made on one \<^verbatim>\<open>Sync\<close> by any number of threads, each through its own lock
  object. A call that suspends its thread leaves the state as it was.
\<close>

datatype call =
  Acquire nat size_t | Try_acquire nat | Release nat | Finish nat size_t | Cancel

fun exec :: "size_t \<Rightarrow> Sync \<Rightarrow> call \<Rightarrow> Sync" where
  "exec STOP s (Acquire lk slot) =
     (case acquire STOP s lk slot of Returns s' \<Rightarrow> s' | Blocks \<Rightarrow> s | Waits \<Rightarrow> s)"
| "exec STOP s (Try_acquire lk) = snd (try_acquire s lk)"
| "exec STOP s (Release lk) = release s lk"
| "exec STOP s (Finish lk slot) =
     (case finish STOP s lk slot of Returns s' \<Rightarrow> s' | Blocks \<Rightarrow> s | Waits \<Rightarrow> s)"
| "exec STOP s Cancel = cancel STOP s"

definition run :: "size_t \<Rightarrow> Sync \<Rightarrow> call list \<Rightarrow> Sync" where
  "run STOP s cs = foldl (exec STOP) s cs"

text \<open>
  The invariant of a \<^verbatim>\<open>Sync\<close> in ORDERED mode after at most \<open>n\<close> calls: bit 0 of
  \<^verbatim>\<open>completed\<close> is clear, and unless the sentinel has been reached, \<^verbatim>\<open>last\<close> plus the
  number of recorded completions is at most the number of calls made.
\<close>

definition sync_inv :: "size_t \<Rightarrow> nat \<Rightarrow> Sync \<Rightarrow> bool" where
  "sync_inv STOP n s \<longleftrightarrow>
     mode s = ORDERED \<and> \<not> bit (completed s) 0 \<and>
     (last_slot s = STOP \<or> unat (last_slot s) + popcount (completed s) \<le> n)"

section \<open>Buffered output: \<^verbatim>\<open>Output\<close> (output.hpp)\<close>

text \<open>
  The sink is a C \<^verbatim>\<open>FILE*\<close>. Its model keeps the bytes it has accepted, how many more
  bytes it will accept (\<open>None\<close>: any number), and whether \<^verbatim>\<open>fflush\<close> succeeds.
  \<^verbatim>\<open>fwrite(data, 1, n, file)\<close> accepts as many of the \<open>n\<close> bytes as there is room for
  and returns that number; a return value below \<open>n\<close> is a short write.
\<close>

record sink =
  written :: string
  room :: "nat option"
  flush_ok :: bool

definition fwrite :: "sink \<Rightarrow> string \<Rightarrow> nat \<times> sink" where
  "fwrite f data =
     (let n = (case room f of None \<Rightarrow> length data | Some r \<Rightarrow> min r (length data))
      in (n, f\<lparr>written := written f @ take n data,
                room := map_option (\<lambda>r. r - n) (room f)\<rparr>))"

text \<open>\<^verbatim>\<open>fflush(file) != 0\<close>\<close>

definition fflush_fails :: "sink \<Rightarrow> bool" where
  "fflush_fails f = (\<not> flush_ok f)"

definition SIZE :: nat where
  "SIZE = 16384"

definition FLUSH :: int where
  "FLUSH = 1"

definition HOLD :: int where
  "HOLD = 2"

definition BINARY :: int where
  "BINARY = 4"

text \<open>\<^verbatim>\<open>struct Buffer { char data[SIZE]; }\<close>: an array is the function from index to byte.\<close>

type_synonym Buffer = "nat \<Rightarrow> char"

datatype ANSI = NA | ESC | CSI | OSC | OSC_ESC

text \<open>
  The members of an \<^verbatim>\<open>Output\<close> that buffering, flushing and synchronisation use
  (\<^verbatim>\<open>dump\<close> and \<^verbatim>\<open>lineno_\<close> belong to the hex dump and to formatting).
  \<open>sync\<close> is the \<^verbatim>\<open>Sync\<close> object pointed to, \<open>None\<close> for \<^verbatim>\<open>NULL\<close>; \<open>lock_\<close> is the
  identity of this Output's lock object. \<open>buf_\<close> is the index of the current buffer in
  \<open>buffers_\<close>, \<open>cur_\<close> the offset of the write position in it.
\<close>

record Output =
  file_sink :: sink
  eof :: bool
  sync :: "Sync option"
  lock_m :: nat
  slot_m :: size_t
  buffers_m :: "Buffer list"
  buf_m :: nat
  cur_m :: nat
  mode_m :: int
  cols_m :: nat
  ansi_m :: ANSI
  skip_m :: bool

text \<open>
  What output.hpp takes from elsewhere: the sentinel \<^verbatim>\<open>UNDEFINED_SIZE\<close> and the flags
  \<^verbatim>\<open>flag_width\<close> and \<^verbatim>\<open>flag_line_buffered\<close> of ugrep.hpp, whether \<^verbatim>\<open>OS_WIN\<close> is
  defined, and the member function \<^verbatim>\<open>flush_truncated_lines\<close>, declared in output.hpp and
  defined in output.cpp. Neither file is among the sources, so they are parameters.
  \<^verbatim>\<open>flush_truncated_lines(data, size)\<close> writes to the sink, keeps its position in
  \<^verbatim>\<open>cols_\<close>, \<^verbatim>\<open>ansi_\<close> and \<^verbatim>\<open>skip_\<close>, and returns true when the sink fails.
\<close>

record Env =
  UNDEFINED_SIZE :: size_t
  flag_width :: nat
  flag_line_buffered :: bool
  OS_WIN :: bool
  flush_truncated_lines ::
    "sink \<times> nat \<times> ANSI \<times> bool \<Rightarrow> string \<Rightarrow> bool \<times> (sink \<times> nat \<times> ANSI \<times> bool)"

text \<open>\<^verbatim>\<open>grow()\<close>: \<^verbatim>\<open>emplace\<close> value-initialises the new buffer, so it is all zero bytes.\<close>

definition grow :: "Output \<Rightarrow> Output" where
  "grow out =
     out\<lparr>buffers_m := buffers_m out @ [\<lambda>_. CHR 0x00], buf_m := length (buffers_m out),
         cur_m := 0\<rparr>"

text \<open>The constructor \<^verbatim>\<open>Output(FILE *file)\<close>.\<close>

definition Output_init :: "Env \<Rightarrow> sink \<Rightarrow> Output" where
  "Output_init env f =
     grow \<lparr>file_sink = f, eof = False, sync = None, lock_m = 0, slot_m = 0, buffers_m = [],
           buf_m = 0, cur_m = 0, mode_m = (if flag_line_buffered env then FLUSH else 0),
           cols_m = 0, ansi_m = NA, skip_m = False\<rparr>"

text \<open>\<^verbatim>\<open>sync_on(s)\<close>; \<open>lk\<close> is the identity of the lock object it allocates.\<close>

definition sync_on :: "Output \<Rightarrow> Sync \<Rightarrow> nat \<Rightarrow> Output" where
  "sync_on out s lk = out\<lparr>sync := Some s, lock_m := lk\<rparr>"

definition begin_slot :: "Output \<Rightarrow> size_t \<Rightarrow> Output" where
  "begin_slot out slot = out\<lparr>slot_m := slot\<rparr>"

text \<open>
  \<^verbatim>\<open>Output::acquire()\<close>. A member function returns \<open>None\<close> when its thread is suspended
  inside \<^verbatim>\<open>Sync::acquire\<close> or \<^verbatim>\<open>Sync::finish\<close>.
\<close>

definition Output_acquire :: "Env \<Rightarrow> Output \<Rightarrow> Output option" where
  "Output_acquire env out =
     (case sync out of
        None \<Rightarrow> Some out
      | Some s \<Rightarrow>
          (case acquire (UNDEFINED_SIZE env) s (lock_m out) (slot_m out) of
             Returns s' \<Rightarrow> Some (out\<lparr>sync := Some s'\<rparr>)
           | Blocks \<Rightarrow> None
           | Waits \<Rightarrow> None))"

definition Output_cancel :: "Env \<Rightarrow> Output \<Rightarrow> Output" where
  "Output_cancel env out =
     out\<lparr>eof := True, sync := map_option (cancel (UNDEFINED_SIZE env)) (sync out)\<rparr>"

definition Output_cancelled :: "Env \<Rightarrow> Output \<Rightarrow> bool" where
  "Output_cancelled env out =
     (case sync out of None \<Rightarrow> False | Some s \<Rightarrow> cancelled (UNDEFINED_SIZE env) s)"

text \<open>
  One block of a flush: \<^verbatim>\<open>fwrite\<close> when \<^verbatim>\<open>flag_width == 0\<close>, else
  \<^verbatim>\<open>flush_truncated_lines\<close>. The result says whether the block failed
  (\<^verbatim>\<open>nwritten < size\<close>, or \<^verbatim>\<open>flush_truncated_lines\<close> returned true).
\<close>

definition write_block :: "Env \<Rightarrow> Output \<Rightarrow> string \<Rightarrow> bool \<times> Output" where
  "write_block env out data =
     (if flag_width env = 0
      then (case fwrite (file_sink out) data of
              (nwritten, f) \<Rightarrow> (nwritten < length data, out\<lparr>file_sink := f\<rparr>))
      else (case flush_truncated_lines env (file_sink out, cols_m out, ansi_m out, skip_m out) data of
              (failed, (f, c, a, k)) \<Rightarrow>
                (failed, out\<lparr>file_sink := f, cols_m := c, ansi_m := a, skip_m := k\<rparr>)))"

text \<open>The \<^verbatim>\<open>SIZE\<close> bytes \<^verbatim>\<open>i->data\<close> of a buffer.\<close>

definition block :: "Buffer \<Rightarrow> string" where
  "block b = map b [0..<SIZE]"

text \<open>
  The loop of \<^verbatim>\<open>flush\<close> over the full buffers before \<^verbatim>\<open>buf_\<close>:
  \<^verbatim>\<open>for (i = buffers_.begin(); i != buf_; ++i)\<close>, left by \<^verbatim>\<open>break\<close> after \<^verbatim>\<open>cancel()\<close>.
\<close>

fun flush_buffers :: "Env \<Rightarrow> Output \<Rightarrow> Buffer list \<Rightarrow> Output" where
  "flush_buffers env out [] = out"
| "flush_buffers env out (b # bs) =
     (case write_block env out (block b) of
        (failed, out') \<Rightarrow>
          if failed then Output_cancel env out' else flush_buffers env out' bs)"

text \<open>
  The rest of \<^verbatim>\<open>flush\<close> after the loop: \<^verbatim>\<open>if (!eof) { ... }\<close> writes the \<^verbatim>\<open>num\<close> bytes
  of the current buffer and calls \<^verbatim>\<open>fflush\<close>.
\<close>

definition flush_last :: "Env \<Rightarrow> Output \<Rightarrow> Output" where
  "flush_last env out =
     (if \<not> eof out
      then let num = cur_m out;
               out3 =
                 (if num > 0
                  then (case write_block env out (map (buffers_m out ! buf_m out) [0..<num]) of
                          (failed, out') \<Rightarrow> if failed then Output_cancel env out' else out')
                  else out)
           in if \<not> eof out3 \<and> fflush_fails (file_sink out3)
              then Output_cancel env out3 else out3
      else out)"

definition flush :: "Env \<Rightarrow> Output \<Rightarrow> Output option" where
  "flush env out =
     (if buf_m out \<noteq> 0 \<or> cur_m out > 0
      then (if \<not> eof out
            then (case Output_acquire env out of
                    None \<Rightarrow> None
                  | Some out1 \<Rightarrow>
                      let out2 = flush_buffers env out1 (take (buf_m out1) (buffers_m out1));
                          out5 = flush_last env out2
                      in Some (out5\<lparr>buf_m := 0, cur_m := 0\<rparr>))
            else Some (out\<lparr>buf_m := 0, cur_m := 0\<rparr>))
      else Some out)"

definition discard :: "Output \<Rightarrow> Output" where
  "discard out = out\<lparr>buf_m := 0, cur_m := 0\<rparr>"

text \<open>
  \<^verbatim>\<open>next()\<close>: flush when not held and the lock is owned or can be taken now; otherwise
  go on to the next buffer of the chain, allocating one when there is none.
\<close>

definition next_buffer :: "Env \<Rightarrow> Output \<Rightarrow> Output option" where
  "next_buffer env out =
     (case (if mode_m out AND HOLD = 0
            then (case sync out of
                    None \<Rightarrow> (True, out)
                  | Some s \<Rightarrow>
                      (case try_acquire s (lock_m out) of
                         (ok, s') \<Rightarrow> (ok, out\<lparr>sync := Some s'\<rparr>)))
            else (False, out)) of
        (True, out1) \<Rightarrow> flush env out1
      | (False, out1) \<Rightarrow>
          Some (if Suc (buf_m out1) = length (buffers_m out1)
                then grow out1
                else out1\<lparr>buf_m := Suc (buf_m out1), cur_m := 0\<rparr>))"

text \<open>\<^verbatim>\<open>chr(c)\<close>: \<^verbatim>\<open>if (cur_ >= buf_->data + SIZE) next(); *cur_++ = c;\<close>\<close>

definition chr :: "Env \<Rightarrow> Output \<Rightarrow> char \<Rightarrow> Output option" where
  "chr env out c =
     (case (if cur_m out \<ge> SIZE then next_buffer env out else Some out) of
        None \<Rightarrow> None
      | Some out1 \<Rightarrow>
          Some (out1\<lparr>buffers_m := (buffers_m out1)
                         [buf_m out1 := (buffers_m out1 ! buf_m out1)(cur_m out1 := c)],
                     cur_m := Suc (cur_m out1)\<rparr>))"

text \<open>\<^verbatim>\<open>memcpy(cur_, s, k); cur_ += k;\<close>\<close>

definition memcpy :: "Buffer \<Rightarrow> nat \<Rightarrow> string \<Rightarrow> Buffer" where
  "memcpy b off data = (\<lambda>i. if off \<le> i \<and> i < off + length data then data ! (i - off) else b i)"

definition copy_in :: "Output \<Rightarrow> string \<Rightarrow> Output" where
  "copy_in out data =
     out\<lparr>buffers_m := (buffers_m out)
            [buf_m out := memcpy (buffers_m out ! buf_m out) (cur_m out) data],
         cur_m := cur_m out + length data\<rparr>"

text \<open>
  \<^verbatim>\<open>str(s, n)\<close>, the span \<^verbatim>\<open>s[0..n)\<close> given as its list of bytes:
  \<^verbatim>\<open>while (cur_ + n >= buf_->data + SIZE) { k = SIZE - cur_; memcpy(cur_, s, k);
  s += k; n -= k; cur_ += k; next(); } memcpy(cur_, s, n); cur_ += n;\<close>
  (\<^verbatim>\<open>cur_\<close> never passes the end of its buffer, so \<open>SIZE - cur_m out\<close> does not wrap.)
\<close>

function str :: "Env \<Rightarrow> Output \<Rightarrow> string \<Rightarrow> Output option" where
  "str env out s =
     (if cur_m out + length s \<ge> SIZE
      then (let k = SIZE - cur_m out
            in case next_buffer env (copy_in out (take k s)) of
                 None \<Rightarrow> None
               | Some out' \<Rightarrow> str env out' (drop k s))
      else Some (copy_in out s))"
  by pat_completeness auto
termination
proof (relation "measure (\<lambda>(env, out, s). 2 * length s + (if cur_m out \<ge> SIZE then 1 else 0))")
  show "wf (measure (\<lambda>(env::Env, out::Output, s::string).
              2 * length s + (if cur_m out \<ge> SIZE then 1 else 0)))"
    by simp
next
  fix env :: Env and out :: Output and s :: string and k and out' :: Output
  assume full: "SIZE \<le> cur_m out + length s" and k: "k = SIZE - cur_m out"
    and nb: "next_buffer env (copy_in out (take k s)) = Some out'"
  have "cur_m out' = 0"
    using nb
    by (auto simp: next_buffer_def flush_def grow_def Let_def
             split: if_splits option.splits prod.splits bool.splits)
  moreover have "cur_m out < SIZE \<Longrightarrow> length (drop k s) < length s"
    using full k by simp
  moreover have "0 < SIZE"
    by (simp add: SIZE_def)
  ultimately show "((env, out', drop k s), (env, out, s))
      \<in> measure (\<lambda>(env, out, s). 2 * length s + (if cur_m out \<ge> SIZE then 1 else 0))"
    using k by (cases "cur_m out < SIZE") auto
qed

declare str.simps [simp del]

text \<open>\<^verbatim>\<open>str(const char *s)\<close>: the bytes of \<open>s\<close> before its terminating NUL.\<close>

definition str_z :: "Env \<Rightarrow> Output \<Rightarrow> string \<Rightarrow> Output option" where
  "str_z env out s =
     (case takeWhile (\<lambda>c. c \<noteq> CHR 0x00) s of
        [] \<Rightarrow> Some out
      | [c] \<Rightarrow> chr env out c
      | z \<Rightarrow> str env out z)"

text \<open>
  \<^verbatim>\<open>utf8strn(s, n, k)\<close>. The inner loop
  \<^verbatim>\<open>while (static_cast<uint8_t>(*++s & 0xc0) == 0x80 && n > 0) --n;\<close>
  moves \<^verbatim>\<open>s\<close> before it reads, and reads before it tests \<^verbatim>\<open>n\<close>: with \<^verbatim>\<open>n == 0\<close> it reads
  the byte after the span, and the test fails whatever that byte is. \<open>i\<close> is \<^verbatim>\<open>s - t\<close>.
\<close>

definition is_continuation :: "char \<Rightarrow> bool" where
  "is_continuation c = ((of_char c :: nat) AND 0xc0 = 0x80)"

function utf8_cont :: "string \<Rightarrow> nat \<Rightarrow> nat \<Rightarrow> nat \<times> nat" where
  "utf8_cont s i n =
     (let i' = Suc i
      in if is_continuation (s ! i') \<and> n > 0 then utf8_cont s i' (n - 1) else (i', n))"
  by pat_completeness auto
termination
  by (relation "measure (\<lambda>(s, i, n). n)") auto

declare utf8_cont.simps [simp del]

text \<open>
  The outer loop \<^verbatim>\<open>while (n-- > 0 && k-- > 0)\<close>; the counters are not read after the
  test that ends it, so their wrap-around there has no effect.
\<close>

function utf8_span :: "string \<Rightarrow> nat \<Rightarrow> nat \<Rightarrow> nat \<Rightarrow> nat" where
  "utf8_span s i n k =
     (if n > 0 \<and> k > 0
      then (case utf8_cont s i (n - 1) of (i', n') \<Rightarrow> utf8_span s i' n' (k - 1))
      else i)"
  by pat_completeness auto
termination
  by (relation "measure (\<lambda>(s, i, n, k). k)") auto

declare utf8_span.simps [simp del]

definition utf8strn :: "Env \<Rightarrow> Output \<Rightarrow> string \<Rightarrow> nat \<Rightarrow> nat \<Rightarrow> Output option" where
  "utf8strn env out s n k = str env out (take (utf8_span s 0 n k) s)"

text \<open>The padding loop of \<^verbatim>\<open>num\<close> and \<^verbatim>\<open>hex\<close>: \<^verbatim>\<open>while (w-- > n) chr(c);\<close>\<close>

function pad :: "Env \<Rightarrow> Output \<Rightarrow> char \<Rightarrow> nat \<Rightarrow> nat \<Rightarrow> Output option" where
  "pad env out c w n =
     (if w > n
      then (case chr env out c of None \<Rightarrow> None | Some out' \<Rightarrow> pad env out' c (w - 1) n)
      else Some out)"
  by pat_completeness auto
termination
  by (relation "measure (\<lambda>(env, out, c, w, n). w)") auto

declare pad.simps [simp del]

text \<open>
  \<^verbatim>\<open>do tmp[--k] = "0123456789abcdef"[i & 0xf]; while ((i >>= 4) > 0);\<close>
  The digits are written from the end of \<^verbatim>\<open>tmp\<close>; \<open>tmp\<close> is the part written so far.
\<close>

function hex_digits :: "size_t \<Rightarrow> string \<Rightarrow> string" where
  "hex_digits i tmp =
     (let tmp' = (''0123456789abcdef'' ! unat (i AND 0xf)) # tmp; i' = drop_bit 4 i
      in if i' > 0 then hex_digits i' tmp' else tmp')"
  by pat_completeness auto
termination
proof (relation "measure (\<lambda>(i, tmp). unat i)")
  show "wf (measure (\<lambda>(i::size_t, tmp::string). unat i))"
    by simp
next
  fix i :: size_t and tmp x xa :: string and i' :: size_t
  assume i': "i' = drop_bit 4 i" and pos: "0 < i'"
  have "unat i' = unat i div 16"
    by (simp add: i' drop_bit_eq_div unat_div)
  moreover have "unat i' \<noteq> 0"
    using pos by (simp add: unat_eq_0)
  ultimately have "unat i' < unat i"
    by (cases "unat i = 0") auto
  then show "((i', xa), (i, tmp)) \<in> measure (\<lambda>(i, tmp). unat i)"
    by simp
qed

declare hex_digits.simps [simp del]

text \<open>\<^verbatim>\<open>do tmp[--k] = i % 10 + '0'; while ((i /= 10) > 0);\<close>\<close>

function dec_digits :: "size_t \<Rightarrow> string \<Rightarrow> string" where
  "dec_digits i tmp =
     (let tmp' = char_of (unat (i mod 10) + 48) # tmp; i' = i div 10
      in if i' > 0 then dec_digits i' tmp' else tmp')"
  by pat_completeness auto
termination
proof (relation "measure (\<lambda>(i, tmp). unat i)")
  show "wf (measure (\<lambda>(i::size_t, tmp::string). unat i))"
    by simp
next
  fix i :: size_t and tmp x xa :: string and i' :: size_t
  assume i': "i' = i div 10" and pos: "0 < i'"
  have "unat i' = unat i div 10"
    by (simp add: i' unat_div)
  moreover have "unat i' \<noteq> 0"
    using pos by (simp add: unat_eq_0)
  ultimately have "unat i' < unat i"
    by (cases "unat i = 0") auto
  then show "((i', xa), (i, tmp)) \<in> measure (\<lambda>(i, tmp). unat i)"
    by simp
qed

declare dec_digits.simps [simp del]

definition num :: "Env \<Rightarrow> Output \<Rightarrow> size_t \<Rightarrow> nat \<Rightarrow> Output option" where
  "num env out i w =
     (let tmp = dec_digits i []
      in case pad env out (CHR '' '') w (length tmp) of
           None \<Rightarrow> None
         | Some out' \<Rightarrow> str env out' tmp)"

definition hex :: "Env \<Rightarrow> Output \<Rightarrow> size_t \<Rightarrow> nat \<Rightarrow> Output option" where
  "hex env out i w =
     (let tmp = hex_digits i []
      in case pad env out (CHR ''0'') w (length tmp) of
           None \<Rightarrow> None
         | Some out' \<Rightarrow> str env out' tmp)"

text \<open>\<^verbatim>\<open>oct(int i)\<close>: the three octal digits of \<^verbatim>\<open>static_cast<uint8_t>(i)\<close>.\<close>

definition oct :: "Env \<Rightarrow> Output \<Rightarrow> int \<Rightarrow> Output option" where
  "oct env out i =
     (let b = nat (i mod 256)
      in case chr env out (char_of (48 + b div 64)) of
           None \<Rightarrow> None
         | Some out1 \<Rightarrow>
             (case chr env out1 (char_of (48 + (b div 8) mod 8)) of
                None \<Rightarrow> None
              | Some out2 \<Rightarrow> chr env out2 (char_of (48 + b mod 8))))"

text \<open>
  \<^verbatim>\<open>uri(const char *s)\<close>. The list holds the bytes of the string; its end is the
  terminating NUL. The test \<^verbatim>\<open>*s >= 0x20 && *s <= 0x7e\<close> on a \<^verbatim>\<open>char\<close> fails for every
  byte from 0x80 on, with \<^verbatim>\<open>char\<close> signed or unsigned.
\<close>

fun uri :: "Env \<Rightarrow> Output \<Rightarrow> string \<Rightarrow> Output option" where
  "uri env out [] = Some out"
| "uri env out (c # s) =
     (if c = CHR 0x00 then Some out
      else if (0x20::nat) \<le> of_char c \<and> (of_char c :: nat) \<le> 0x7e
              \<and> c \<noteq> CHR ''%'' \<and> c \<noteq> CHR '';''
      then (case chr env out c of None \<Rightarrow> None | Some out' \<Rightarrow> uri env out' s)
      else (case chr env out (CHR ''%'') of
              None \<Rightarrow> None
            | Some out1 \<Rightarrow>
                (case hex env out1 (of_nat (of_char c)) 2 of
                   None \<Rightarrow> None
                 | Some out2 \<Rightarrow> uri env out2 s)))"

definition check_flush :: "Env \<Rightarrow> Output \<Rightarrow> Output option" where
  "check_flush env out = (if mode_m out = FLUSH then flush env out else Some out)"

text \<open>\<^verbatim>\<open>nl(lf_only)\<close>; the carriage return is compiled in under \<^verbatim>\<open>OS_WIN\<close> only.\<close>

definition nl :: "Env \<Rightarrow> Output \<Rightarrow> bool \<Rightarrow> Output option" where
  "nl env out lf_only =
     (case (if \<not> lf_only \<and> OS_WIN env then chr env out (CHR 0x0D) else Some out) of
        None \<Rightarrow> None
      | Some out1 \<Rightarrow>
          (case chr env out1 (CHR 0x0A) of
             None \<Rightarrow> None
           | Some out2 \<Rightarrow> check_flush env out2))"

definition set_flush :: "Output \<Rightarrow> Output" where
  "set_flush out = out\<lparr>mode_m := mode_m out OR FLUSH\<rparr>"

definition hold :: "Output \<Rightarrow> Output" where
  "hold out = out\<lparr>mode_m := mode_m out OR HOLD\<rparr>"

definition launch :: "Env \<Rightarrow> Output \<Rightarrow> Output option" where
  "launch env out =
     (if mode_m out AND HOLD \<noteq> 0
      then check_flush env (out\<lparr>mode_m := mode_m out AND NOT HOLD\<rparr>)
      else Some out)"

definition holding :: "Output \<Rightarrow> bool" where
  "holding out = (mode_m out AND HOLD \<noteq> 0)"

definition Output_release :: "Env \<Rightarrow> Output \<Rightarrow> Output option" where
  "Output_release env out =
     (case (if mode_m out AND HOLD = 0 then flush env out else Some (discard out)) of
        None \<Rightarrow> None
      | Some out1 \<Rightarrow>
          Some (out1\<lparr>mode_m := (if flag_line_buffered env then FLUSH else 0),
                     sync := map_option (\<lambda>s. release s (lock_m out1)) (sync out1)\<rparr>))"

definition end_slot :: "Env \<Rightarrow> Output \<Rightarrow> Output option" where
  "end_slot env out =
     (case sync out of
        None \<Rightarrow> Some out
      | Some s \<Rightarrow>
          (case finish (UNDEFINED_SIZE env) s (lock_m out) (slot_m out) of
             Returns s' \<Rightarrow> Some (out\<lparr>sync := Some s'\<rparr>)
           | Blocks \<Rightarrow> None
           | Waits \<Rightarrow> None))"

text \<open>The emit operations of the header, and sequences of them with flushes in between.\<close>

datatype output_op =
  Chr char | Str string | Str_z string | Utf8strn string nat nat | Uri string
  | Num size_t nat | Hex size_t nat | Oct int | Nl bool | Flush

fun emit :: "Env \<Rightarrow> Output \<Rightarrow> output_op \<Rightarrow> Output option" where
  "emit env out (Chr c) = chr env out c"
| "emit env out (Str s) = str env out s"
| "emit env out (Str_z s) = str_z env out s"
| "emit env out (Utf8strn s n k) = utf8strn env out s n k"
| "emit env out (Uri s) = uri env out s"
| "emit env out (Num i w) = num env out i w"
| "emit env out (Hex i w) = hex env out i w"
| "emit env out (Oct i) = oct env out i"
| "emit env out (Nl lf_only) = nl env out lf_only"
| "emit env out Flush = flush env out"

fun output_ops :: "Env \<Rightarrow> Output \<Rightarrow> output_op list \<Rightarrow> Output option" where
  "output_ops env out [] = Some out"
| "output_ops env out (e # es) =
     (case emit env out e of None \<Rightarrow> None | Some out' \<Rightarrow> output_ops env out' es)"

text \<open>
  What an Output holds that has not reached the sink: the full buffers before \<^verbatim>\<open>buf_\<close>
  and the bytes of the current buffer before \<^verbatim>\<open>cur_\<close>, which is what \<^verbatim>\<open>flush\<close> writes.
  \<open>stream\<close> is everything emitted so far: the bytes in the sink, then the pending ones.
\<close>

definition pending :: "Output \<Rightarrow> string" where
  "pending out =
     concat (map block (take (buf_m out) (buffers_m out)))
     @ map (buffers_m out ! buf_m out) [0..<cur_m out]"

definition stream :: "Output \<Rightarrow> string" where
  "stream out = written (file_sink out) @ pending out"

text \<open>The chain is well formed: the cursor is in a buffer of the chain.\<close>

definition chain_ok :: "Output \<Rightarrow> bool" where
  "chain_ok out \<longleftrightarrow> buf_m out < length (buffers_m out) \<and> cur_m out \<le> SIZE"

text \<open>
  Auxiliary notions for the proofs. An Output is quiet when it is at EOF or held; an
  operation leaves it untouched when the sink, the EOF flag and the mode are as before;
  it is dead when it is at EOF and its Sync, if any, is cancelled. \<open>fits r n\<close>: a sink
  with room \<open>r\<close> accepts \<open>n\<close> more bytes; \<open>sink_add\<close> is the sink after it accepted them.
\<close>

definition quiet :: "Output \<Rightarrow> bool" where
  "quiet out \<longleftrightarrow> eof out \<or> mode_m out AND HOLD \<noteq> 0"

definition untouched :: "Output \<Rightarrow> Output \<Rightarrow> bool" where
  "untouched out out' \<longleftrightarrow>
     file_sink out' = file_sink out \<and> eof out' = eof out \<and> mode_m out' = mode_m out"

definition fits :: "nat option \<Rightarrow> nat \<Rightarrow> bool" where
  "fits r n = (case r of None \<Rightarrow> True | Some k \<Rightarrow> n \<le> k)"

definition sink_add :: "sink \<Rightarrow> string \<Rightarrow> sink" where
  "sink_add f data =
     f\<lparr>written := written f @ data, room := map_option (\<lambda>r. r - length data) (room f)\<rparr>"

definition dead :: "Env \<Rightarrow> Output \<Rightarrow> bool" where
  "dead env out \<longleftrightarrow>
     eof out \<and> (\<forall>s. sync out = Some s \<longrightarrow> cancelled (UNDEFINED_SIZE env) s)"

text \<open>
  The sink side of a flush. \<open>flush_blocks\<close> are the blocks that \<^verbatim>\<open>flush\<close> hands to the
  sink, in order: the full buffers before \<^verbatim>\<open>buf_\<close>, then the \<^verbatim>\<open>num\<close> bytes of the current
  buffer when \<^verbatim>\<open>num > 0\<close>. \<open>write_blocks\<close> writes them until one fails. The sink fails
  during the flush when a block fails (\<^verbatim>\<open>fwrite\<close> returns less than the size of the
  block when \<^verbatim>\<open>flag_width == 0\<close>, \<^verbatim>\<open>flush_truncated_lines\<close> returns true otherwise) or,
  every block written, \<^verbatim>\<open>fflush\<close> fails.
\<close>

definition flush_blocks :: "Output \<Rightarrow> string list" where
  "flush_blocks out =
     map block (take (buf_m out) (buffers_m out))
     @ (if cur_m out > 0 then [map (buffers_m out ! buf_m out) [0..<cur_m out]] else [])"

fun write_blocks :: "Env \<Rightarrow> Output \<Rightarrow> string list \<Rightarrow> bool \<times> Output" where
  "write_blocks env out [] = (False, out)"
| "write_blocks env out (d # ds) =
     (case write_block env out d of
        (failed, out') \<Rightarrow> if failed then (True, out') else write_blocks env out' ds)"

definition sink_fails :: "Env \<Rightarrow> Output \<Rightarrow> bool" where
  "sink_fails env out =
     (case write_blocks env out (flush_blocks out) of
        (failed, out') \<Rightarrow> failed \<or> fflush_fails (file_sink out'))"

text \<open>
  An Output loses nothing while \<^verbatim>\<open>flag_width == 0\<close>, it is not at EOF, its sink
  accepts every byte and \<^verbatim>\<open>fflush\<close> succeeds, and its chain is well formed.
\<close>

definition lossless :: "Env \<Rightarrow> Output \<Rightarrow> bool" where
  "lossless env out \<longleftrightarrow>
     flag_width env = 0 \<and> \<not> eof out \<and> room (file_sink out) = None
     \<and> flush_ok (file_sink out) \<and> chain_ok out"

text \<open>
  The URI quoting as the specification words it: a byte in \<open>0x20..0x7E\<close> other than
  \<open>%\<close> and \<open>;\<close> passes through, every other byte becomes \<open>%\<close> and the two hexadecimal
  digits of its value.
\<close>

definition hexdigit :: "nat \<Rightarrow> char" where
  "hexdigit n = ''0123456789abcdef'' ! n"

definition uri_encoded :: "char \<Rightarrow> string" where
  "uri_encoded c =
     (if (0x20::nat) \<le> of_char c \<and> (of_char c :: nat) \<le> 0x7e
         \<and> c \<noteq> CHR ''%'' \<and> c \<noteq> CHR '';''
      then [c]
      else [CHR ''%'', hexdigit (of_char c div 16), hexdigit (of_char c mod 16)])"

section \<open>UTF-8 text, as the claims about \<^verbatim>\<open>utf8strn\<close> read it\<close>

text \<open>
  The form of UTF-8 encoded text (RFC 3629): each character is a lead byte
  \<open>0xxxxxxx\<close>, \<open>110xxxxx\<close>, \<open>1110xxxx\<close> or \<open>11110xxx\<close> followed by 0, 1, 2 or 3
  continuation bytes \<open>10xxxxxx\<close>. \<open>utf8_seq_len\<close> is the length of the sequence that a
  lead byte announces, 0 for a byte that cannot lead. Every valid UTF-8 text has this
  form (validity also excludes overlong forms and surrogates, which play no role here).
\<close>

definition utf8_seq_len :: "char \<Rightarrow> nat" where
  "utf8_seq_len c =
     (let v = (of_char c :: nat)
      in if v < 0x80 then 1
         else if 0xC0 \<le> v \<and> v < 0xE0 then 2
         else if 0xE0 \<le> v \<and> v < 0xF0 then 3
         else if 0xF0 \<le> v \<and> v < 0xF8 then 4
         else 0)"

function utf8_valid :: "string \<Rightarrow> bool" where
  "utf8_valid [] = True"
| "utf8_valid (c # cs) =
     (let l = utf8_seq_len c
      in 0 < l \<and> l - 1 \<le> length cs \<and> list_all is_continuation (take (l - 1) cs)
         \<and> utf8_valid (drop (l - 1) cs))"
  by pat_completeness auto
termination
  by (relation "measure length") auto

text \<open>The number of characters of a UTF-8 text is the number of its lead bytes.\<close>

definition utf8_length :: "string \<Rightarrow> nat" where
  "utf8_length s = length (filter (\<lambda>c. \<not> is_continuation c) s)"

text \<open>
  The number of bytes that the first \<open>k\<close> characters of a text take, when a character
  is one byte and the continuation bytes that follow it.
\<close>

fun utf8_prefix_len :: "nat \<Rightarrow> string \<Rightarrow> nat" where
  "utf8_prefix_len 0 t = 0"
| "utf8_prefix_len (Suc k) [] = 0"
| "utf8_prefix_len (Suc k) (c # cs) =
     Suc (length (takeWhile is_continuation cs))
     + utf8_prefix_len k (dropWhile is_continuation cs)"

section \<open>The interactive query: \<^verbatim>\<open>Query\<close> (query.cpp)\<close>

subsection \<open>Flag toggles: \<^verbatim>\<open>Query::meta\<close>\<close>

text \<open>
  The keys of the table \<^verbatim>\<open>flags_[]\<close> in the order of the source, so that the key of
  \<^verbatim>\<open>flags_[i]\<close> is \<open>flag_keys ! i\<close>: \<open>A\<close> is entry 0, \<open>B\<close> 1, \<open>C\<close> 3, \<open>R\<close> 17,
  \<open>r\<close> 18 and \<open>1\<close> to \<open>9\<close> are entries 31 to 39. The entry after the last has
  \<^verbatim>\<open>text == NULL\<close> and ends the search.
\<close>

definition flag_keys :: string where
  "flag_keys = ''ABbCcFGHhIijklnoPRrTUuvWwXxYyz0123456789.+#$@^''"

text \<open>
  \<^verbatim>\<open>for (Flags *fp = flags_; fp->text != NULL; ++fp) if (fp->key == key)\<close>:
  the index of the first entry with the key, if any. The key is an \<^verbatim>\<open>int\<close>.
\<close>

fun find_key :: "int \<Rightarrow> string \<Rightarrow> nat \<Rightarrow> nat option" where
  "find_key key [] i = None"
| "find_key key (k # ks) i = (if of_char k = key then Some i else find_key key ks (Suc i))"

text \<open>
  The state that \<^verbatim>\<open>meta\<close> changes: \<open>flags_q i\<close> is \<^verbatim>\<open>flags_[i].flag\<close>, and the two
  members \<^verbatim>\<open>updated_\<close> and \<^verbatim>\<open>message_\<close>. What it draws on the screen is left out.
\<close>

record Flag_state =
  flags_q :: "nat \<Rightarrow> bool"
  updated_q :: bool
  message_q :: bool

text \<open>\<^verbatim>\<open>flags_[i].flag = false\<close> for each \<open>i\<close> of a list.\<close>

fun clear_flags :: "nat list \<Rightarrow> (nat \<Rightarrow> bool) \<Rightarrow> (nat \<Rightarrow> bool)" where
  "clear_flags [] f = f"
| "clear_flags (i # is) f = clear_flags is (f(i := False))"

text \<open>
  The \<^verbatim>\<open>switch (key)\<close> taken when the flag of the key is off. The case \<^verbatim>\<open>'%'\<close> of the
  source is kept although no entry of the table has that key.
\<close>

definition switch_on :: "char \<Rightarrow> (nat \<Rightarrow> bool) \<Rightarrow> (nat \<Rightarrow> bool)" where
  "switch_on k f =
     (if k = CHR ''A'' then clear_flags [1, 3, 15, 28] f
      else if k = CHR ''B'' then clear_flags [0, 3, 15, 28] f
      else if k = CHR ''b'' \<or> k = CHR ''k'' \<or> k = CHR ''n'' then clear_flags [4, 13] f
      else if k = CHR ''C'' then clear_flags [0, 1, 15, 28] f
      else if k = CHR ''c'' then clear_flags [2, 12, 13, 14] f
      else if k = CHR ''H'' then clear_flags [8] f
      else if k = CHR ''h'' then clear_flags [7] f
      else if k = CHR ''I'' then clear_flags [23, 25] f
      else if k = CHR ''i'' then clear_flags [11] f
      else if k = CHR ''j'' then clear_flags [10] f
      else if k = CHR ''l'' then clear_flags [2, 4, 12, 14] f
      else if k = CHR ''o'' then clear_flags [0, 1, 3, 28] f
      else if k = CHR ''R'' then clear_flags (18 # [31..<40]) f
      else if k = CHR ''r'' then clear_flags (17 # [31..<40]) f
      else if k = CHR ''W'' then clear_flags [9, 25] f
      else if k = CHR ''w'' then clear_flags [26] f
      else if k = CHR ''X'' then clear_flags [9, 23] f
      else if k = CHR ''x'' then clear_flags [24] f
      else if k = CHR ''y'' then clear_flags [0, 1, 3, 15] f
      else if k \<in> set ''123456789''
      then (let f' = clear_flags [31..<40] f
            in if \<not> f' 17 \<and> \<not> f' 18 then f'(17 := True) else f')
      else if k = CHR ''#'' then clear_flags [43, 44] f
      else if k = CHR ''%'' then clear_flags [42, 44] f
      else if k = CHR ''@'' then clear_flags [42, 43] f
      else f)"

text \<open>The \<^verbatim>\<open>switch (key)\<close> taken when the flag of the key is on.\<close>

definition switch_off :: "char \<Rightarrow> (nat \<Rightarrow> bool) \<Rightarrow> (nat \<Rightarrow> bool)" where
  "switch_off k f =
     (if k = CHR ''R'' \<or> k = CHR ''r'' then clear_flags [31..<40] f else f)"

text \<open>
  \<^verbatim>\<open>meta(key)\<close>. \<open>no_perl\<close> and \<open>no_libz\<close> say that the build has neither PCRE2 nor
  Boost.Regex, and no zlib (\<^verbatim>\<open>HAVE_PCRE2\<close>, \<^verbatim>\<open>HAVE_BOOST_REGEX\<close> and \<^verbatim>\<open>HAVE_LIBZ\<close> come
  from configure): then the keys \<open>P\<close> and \<open>z\<close> show a message and toggle nothing. A
  key that is not in the table rings the bell and changes nothing.
\<close>

definition meta :: "bool \<Rightarrow> bool \<Rightarrow> int \<Rightarrow> Flag_state \<Rightarrow> Flag_state" where
  "meta no_perl no_libz key st =
     (case find_key key flag_keys 0 of
        None \<Rightarrow> st
      | Some i \<Rightarrow>
          let k = flag_keys ! i;
              f = (if \<not> flags_q st i then switch_on k (flags_q st)
                   else switch_off k (flags_q st))
          in if (no_perl \<and> k = CHR ''P'') \<or> (no_libz \<and> k = CHR ''z'')
             then st\<lparr>flags_q := f, message_q := True\<rparr>
             else st\<lparr>flags_q := f(i := \<not> f i), updated_q := True, message_q := True\<rparr>)"

definition metas :: "bool \<Rightarrow> bool \<Rightarrow> Flag_state \<Rightarrow> int list \<Rightarrow> Flag_state" where
  "metas no_perl no_libz st keys = foldl (\<lambda>s key. meta no_perl no_libz key s) st keys"

text \<open>
  The exclusion groups of the table: at most one of the context flags \<open>A\<close>, \<open>B\<close>,
  \<open>C\<close>; at most one depth digit; not both \<open>R\<close> and \<open>r\<close>. And the link between
  them: a depth digit is set only together with \<open>R\<close> or \<open>r\<close>.
\<close>

definition exclusive :: "(nat \<Rightarrow> bool) \<Rightarrow> bool" where
  "exclusive f \<longleftrightarrow>
     \<not> (f 0 \<and> f 1) \<and> \<not> (f 0 \<and> f 3) \<and> \<not> (f 1 \<and> f 3)
     \<and> (\<forall>i\<in>{31..<40}. \<forall>j\<in>{31..<40}. f i \<and> f j \<longrightarrow> i = j)
     \<and> \<not> (f 17 \<and> f 18)"

definition depth_recurses :: "(nat \<Rightarrow> bool) \<Rightarrow> bool" where
  "depth_recurses f \<longleftrightarrow> (\<forall>i\<in>{31..<40}. f i \<longrightarrow> f 17 \<or> f 18)"

text \<open>The invariant of the table: the exclusion groups, and a depth only with recursion.\<close>

definition flags_inv :: "(nat \<Rightarrow> bool) \<Rightarrow> bool" where
  "flags_inv f \<longleftrightarrow> exclusive f \<and> depth_recurses f"

subsection \<open>The result lines: \<^verbatim>\<open>Query::fetch\<close>, \<^verbatim>\<open>load_line\<close> and \<^verbatim>\<open>save_line\<close>\<close>

datatype Query_Mode = QUERY | LIST | EDIT | HELP

text \<open>
  The members of \<^verbatim>\<open>Query\<close> that the result lines depend on. \<open>view_q\<close> is the vector
  \<^verbatim>\<open>view_\<close> of lines and \<open>selected_q\<close> the vector \<^verbatim>\<open>selected_\<close>; \<open>line_q\<close> is the C
  string in the array \<^verbatim>\<open>line_\<close>, the bytes before its first NUL. The cursor members
  \<^verbatim>\<open>len_\<close> and \<^verbatim>\<open>col_\<close>, which \<^verbatim>\<open>load_line\<close> also sets (through \<^verbatim>\<open>line_len\<close> and
  \<^verbatim>\<open>move\<close>, which measure display columns and draw), are left out: neither vector
  depends on them.
\<close>

record Query =
  mode_q :: Query_Mode
  select_q :: int
  rows_q :: int
  view_q :: "string list"
  selected_q :: "bool list"
  select_all_q :: bool
  append_q :: bool
  line_q :: string

text \<open>\<^verbatim>\<open>static_cast<size_t>(select_)\<close>: a negative \<^verbatim>\<open>int\<close> wraps around to a large size.\<close>

definition size_t_of_int :: "int \<Rightarrow> nat" where
  "size_t_of_int i = nat (i mod 2 ^ 64)"

text \<open>\<^verbatim>\<open>static_cast<int>(view_.size())\<close>: the low 32 bits, read as a signed number.\<close>

definition int_of_size_t :: "nat \<Rightarrow> int" where
  "int_of_size_t n = sint (word_of_nat n :: 32 word)"




text \<open>
  The part of \<^verbatim>\<open>fetch\<close> that stores a row (\<^verbatim>\<open>if (nlptr != NULL) { ... }\<close>): \<open>chunk\<close> is
  the text \<^verbatim>\<open>buffer_[0 .. nlptr)\<close>, \<open>incomplete\<close> says that it has no newline yet. An
  index outside its vector is undefined behaviour: the result is \<open>None\<close>. (\<^verbatim>\<open>rows_\<close> is
  an \<^verbatim>\<open>int\<close>; its overflow in \<^verbatim>\<open>++rows_\<close>, after \<open>2\<^sup>3\<^sup>1 - 1\<close> rows, is not modelled.)
\<close>

definition store_row :: "Query \<Rightarrow> string \<Rightarrow> bool \<Rightarrow> Query option" where
  "store_row q chunk incomplete =
     (let q1 = (if rows_q q \<ge> int_of_size_t (length (view_q q))
                then q\<lparr>view_q := view_q q @ [[]],
                       selected_q := selected_q q @ [select_all_q q]\<rparr>
                else q);
          r = size_t_of_int (rows_q q1)
      in if r \<ge> length (view_q q1) \<or> r \<ge> length (selected_q q1) then None
         else let q2 = q1\<lparr>view_q := (view_q q1)
                              [r := (if append_q q1 then view_q q1 ! r @ chunk else chunk)],
                          selected_q := (selected_q q1)[r := select_all_q q1]\<rparr>;
                  q3 = (if \<not> incomplete then q2\<lparr>rows_q := rows_q q2 + 1\<rparr> else q2)
              in Some (q3\<lparr>append_q := incomplete\<rparr>))"

section \<open>Example states\<close>

text \<open>
  An environment without width truncation (\<^verbatim>\<open>flag_width == 0\<close>, so
  \<^verbatim>\<open>flush_truncated_lines\<close> is never called), a sink that accepts every byte, and a
  closed sink, where every \<^verbatim>\<open>fwrite\<close> is a short write.
\<close>

definition plain_env :: Env where
  "plain_env =
     \<lparr>UNDEFINED_SIZE = - 1, flag_width = 0, flag_line_buffered = False, OS_WIN = False,
      flush_truncated_lines = (\<lambda>st data. (False, st))\<rparr>"

definition open_sink :: sink where
  "open_sink = \<lparr>written = [], room = None, flush_ok = True\<rparr>"

definition closed_sink :: sink where
  "closed_sink = \<lparr>written = [], room = Some 0, flush_ok = True\<rparr>"

text \<open>A buffer that holds the byte \<open>c\<close> at offset 0.\<close>

definition buffer_with :: "char \<Rightarrow> Buffer" where
  "buffer_with c = (\<lambda>_. CHR 0x00)(0 := c)"

text \<open>An Output on the closed sink after \<^verbatim>\<open>chr('a')\<close>, and after the \<^verbatim>\<open>flush()\<close> that fails.\<close>

definition unflushed_output :: Output where
  "unflushed_output =
     \<lparr>file_sink = closed_sink, eof = False, sync = None, lock_m = 0, slot_m = 0,
      buffers_m = [buffer_with (CHR ''a'')], buf_m = 0, cur_m = 1, mode_m = 0,
      cols_m = 0, ansi_m = NA, skip_m = False\<rparr>"

definition failed_output :: Output where
  "failed_output = unflushed_output\<lparr>eof := True, cur_m := 0\<rparr>"

text \<open>An Output on the open sink, held, after \<^verbatim>\<open>chr('a')\<close>.\<close>

definition held_output :: Output where
  "held_output =
     \<lparr>file_sink = open_sink, eof = False, sync = None, lock_m = 0, slot_m = 0,
      buffers_m = [buffer_with (CHR ''a'')], buf_m = 0, cur_m = 1, mode_m = HOLD,
      cols_m = 0, ansi_m = NA, skip_m = False\<rparr>"

text \<open>
  An environment that truncates lines to 80 columns and whose \<^verbatim>\<open>flush_truncated_lines\<close>
  finds the sink failing; and an Output on the open sink that is attached to a fresh
  ORDERED Sync, after \<^verbatim>\<open>chr('a')\<close> in slot 0.
\<close>

definition wide_env :: Env where
  "wide_env =
     \<lparr>UNDEFINED_SIZE = - 1, flag_width = 80, flag_line_buffered = False, OS_WIN = False,
      flush_truncated_lines = (\<lambda>st data. (True, st))\<rparr>"

definition synced_output :: Output where
  "synced_output =
     \<lparr>file_sink = open_sink, eof = False, sync = Some (Sync_init ORDERED), lock_m = 0,
      slot_m = 0, buffers_m = [buffer_with (CHR ''a'')], buf_m = 0, cur_m = 1, mode_m = 0,
      cols_m = 0, ansi_m = NA, skip_m = False\<rparr>"

text \<open>
  A flag table in which only \<^verbatim>\<open>recurse 1 level\<close> is set; the table with no flag set,
  as it is initialised; and the keys \<open>2\<close>, \<open>A\<close>, \<open>r\<close>, \<open>3\<close>, \<open>B\<close> typed in turn.
\<close>

definition only_depth_1 :: "nat \<Rightarrow> bool" where
  "only_depth_1 i = (i = 31)"

definition no_flags :: Flag_state where
  "no_flags = \<lparr>flags_q = (\<lambda>_. False), updated_q = False, message_q = False\<rparr>"

definition example_keys :: "int list" where
  "example_keys = map of_char ''2Ar3B''"


section \<open>Properties of the synchroniser\<close>

lemma bump_char:
  "\<exists>k. bump l c = (l + 1 + of_nat k, drop_bit (Suc k) c)
      \<and> (\<forall>i. 1 \<le> i \<and> i \<le> k \<longrightarrow> bit c i) \<and> \<not> bit c (Suc k)"
proof (induction l c rule: bump.induct)
  case (1 l c)
  show ?case
  proof (cases "bit c 1")
    case False
    then have "bump l c = (l + 1, drop_bit 1 c)"
      by (subst bump.simps) (simp add: Bits_test_def Bits_rshift_def bit_drop_bit_eq)
    with False show ?thesis
      by (intro exI [of _ 0]) auto
  next
    case True
    then have t: "Bits_test (Bits_rshift c) 0"
      by (simp add: Bits_test_def Bits_rshift_def bit_drop_bit_eq)
    from 1 [OF refl refl t] obtain k where
      k: "bump (l + 1) (Bits_rshift c) = (l + 1 + 1 + of_nat k, drop_bit (Suc k) (Bits_rshift c))"
        "\<forall>i. 1 \<le> i \<and> i \<le> k \<longrightarrow> bit (Bits_rshift c) i" "\<not> bit (Bits_rshift c) (Suc k)"
      by blast
    have "bump l c = bump (l + 1) (Bits_rshift c)"
      using t by (subst bump.simps) simp
    with k(1) have "bump l c = (l + 1 + of_nat (Suc k), drop_bit (Suc (Suc k)) c)"
      by (simp add: Bits_rshift_def add.commute add.left_commute)
    moreover have "\<forall>i. 1 \<le> i \<and> i \<le> Suc k \<longrightarrow> bit c i"
    proof (intro allI impI)
      fix i assume i: "1 \<le> i \<and> i \<le> Suc k"
      show "bit c i"
      proof (cases "i = 1")
        case True with \<open>bit c 1\<close> show ?thesis by simp
      next
        case False
        with i have "1 \<le> i - 1 \<and> i - 1 \<le> k" by auto
        with k(2) have "bit (Bits_rshift c) (i - 1)" by blast
        with i show ?thesis by (simp add: Bits_rshift_def bit_drop_bit_eq)
      qed
    qed
    moreover have "\<not> bit c (Suc (Suc k))"
      using k(3) by (simp add: Bits_rshift_def bit_drop_bit_eq)
    ultimately show ?thesis by blast
  qed
qed


lemma bits_finite: "finite {i. bit (c::nat) i}"
proof (rule finite_subset)
  show "{i. bit c i} \<subseteq> {..c}"
  proof
    fix i assume "i \<in> {i. bit c i}"
    then have "odd (c div 2 ^ i)" by (simp add: bit_iff_odd)
    then have "c div 2 ^ i \<noteq> 0" by (metis even_zero)
    then have "2 ^ i \<le> c" by (metis div_less not_le)
    moreover have "i < 2 ^ i" by (rule less_exp)
    ultimately have "i \<le> c" by linarith
    then show "i \<in> {..c}" by simp
  qed
qed simp

lemma popcount_insert: "popcount (Bits_insert c n) \<le> Suc (popcount c)"
proof -
  have "{i. bit (set_bit n c) i} = insert n {i. bit c i}"
    by (auto simp: bit_set_bit_iff)
  then show ?thesis
    using bits_finite [of c] by (simp add: popcount_def Bits_insert_def card_insert_if)
qed

lemma popcount_drop:
  assumes "\<not> bit c 0" and "\<forall>i. 1 \<le> i \<and> i \<le> k \<longrightarrow> bit c i"
  shows "popcount c = k + popcount (drop_bit (Suc k) c)"
proof -
  let ?D = "{j. bit (drop_bit (Suc k) c) j}"
  have eq: "{i. bit c i} = {1..k} \<union> (\<lambda>j. j + Suc k) ` ?D"
  proof (rule set_eqI)
    fix i
    show "i \<in> {i. bit c i} \<longleftrightarrow> i \<in> {1..k} \<union> (\<lambda>j. j + Suc k) ` ?D"
    proof (cases "i \<le> k")
      case True
      then show ?thesis using assms by (cases "i = 0") auto
    next
      case False
      then have i: "i = (i - Suc k) + Suc k" by simp
      have "bit c i \<longleftrightarrow> (i - Suc k) \<in> ?D"
        using i by (simp add: bit_drop_bit_eq add.commute)
      moreover have "(i - Suc k) \<in> ?D \<longleftrightarrow> i \<in> (\<lambda>j. j + Suc k) ` ?D"
        using i by (auto simp: image_iff)
      ultimately show ?thesis
        using False by auto
    qed
  qed
  have "card ({1..k} \<union> (\<lambda>j. j + Suc k) ` ?D) = card {1..k} + card ((\<lambda>j. j + Suc k) ` ?D)"
    by (rule card_Un_disjoint) (auto simp: bits_finite)
  also have "card ((\<lambda>j. j + Suc k) ` ?D) = card ?D"
    by (rule card_image) (simp add: inj_on_def)
  finally show ?thesis
    by (simp add: popcount_def eq)
qed


lemma sync_inv_init: "sync_inv STOP 0 (Sync_init ORDERED)"
  by (simp add: sync_inv_def Sync_init_def popcount_def)

lemma sync_inv_mono: "sync_inv STOP n s \<Longrightarrow> n \<le> m \<Longrightarrow> sync_inv STOP m s"
  by (auto simp: sync_inv_def)

lemma unat_advance:
  assumes "unat (l::size_t) + Suc k < 2 ^ 64"
  shows "unat (l + 1 + of_nat k) = unat l + Suc k"
proof -
  have "l + 1 + of_nat k = l + of_nat (Suc k)" by simp
  moreover have "unat (l + of_nat (Suc k)) = unat l + Suc k"
    using assms by (simp add: unat_word_ariths unat_of_nat del: of_nat_Suc)
  ultimately show ?thesis by (simp only:)
qed

lemma finish_own_slot:
  assumes inv: "sync_inv STOP n s" and n: "Suc n < 2 ^ 64"
    and live: "last_slot s \<noteq> STOP" and free: "mutex s = None \<or> mutex s = Some lk"
  shows "\<exists>k. finish STOP s lk (last_slot s) =
           Returns (s\<lparr>last_slot := last_slot s + 1 + of_nat k,
                      completed := drop_bit (Suc k) (completed s),
                      mutex := None, turn := Suc (turn s)\<rparr>)
         \<and> (\<forall>i. 1 \<le> i \<and> i \<le> k \<longrightarrow> bit (completed s) i)
         \<and> \<not> bit (completed s) (Suc k)
         \<and> unat (last_slot s + 1 + of_nat k) = unat (last_slot s) + Suc k
         \<and> popcount (completed s) = k + popcount (drop_bit (Suc k) (completed s))"
proof -
  obtain k where k: "bump (last_slot s) (completed s) =
        (last_slot s + 1 + of_nat k, drop_bit (Suc k) (completed s))"
      "\<forall>i. 1 \<le> i \<and> i \<le> k \<longrightarrow> bit (completed s) i" "\<not> bit (completed s) (Suc k)"
    using bump_char [of "last_slot s" "completed s"] by blast
  have pc: "popcount (completed s) = k + popcount (drop_bit (Suc k) (completed s))"
    using inv k(2) by (intro popcount_drop) (auto simp: sync_inv_def)
  have "unat (last_slot s) + popcount (completed s) \<le> n"
    using inv live by (simp add: sync_inv_def)
  with pc n have "unat (last_slot s) + Suc k < 2 ^ 64" by linarith
  then have u: "unat (last_slot s + 1 + of_nat k) = unat (last_slot s) + Suc k"
    by (rule unat_advance)
  have "finish STOP s lk (last_slot s) =
           Returns (s\<lparr>last_slot := last_slot s + 1 + of_nat k,
                      completed := drop_bit (Suc k) (completed s),
                      mutex := None, turn := Suc (turn s)\<rparr>)"
    using inv live free k(1) by (auto simp: finish_def sync_inv_def owns_lock_def)
  with k pc u show ?thesis by blast
qed

lemma sync_inv_exec:
  assumes inv: "sync_inv STOP n s" and n: "Suc n < 2 ^ 64"
  shows "sync_inv STOP (Suc n) (exec STOP s c)"
proof (cases c)
  case (Acquire lk slot)
  then show ?thesis
    using inv by (auto simp: sync_inv_def acquire_def split: if_splits)
next
  case (Try_acquire lk)
  then show ?thesis
    using inv by (auto simp: sync_inv_def try_acquire_def)
next
  case (Release lk)
  then show ?thesis
    using inv by (auto simp: sync_inv_def release_def)
next
  case Cancel
  then show ?thesis
    using inv by (auto simp: sync_inv_def cancel_def)
next
  case (Finish lk slot)
  have ord: "mode s = ORDERED" using inv by (simp add: sync_inv_def)
  show ?thesis
  proof (cases "last_slot s = STOP")
    case True
    then show ?thesis
      using inv Finish by (auto simp: sync_inv_def finish_def)
  next
    case live: False
    show ?thesis
    proof (cases "slot = last_slot s")
      case False
      then have "unat (slot - last_slot s) \<noteq> 0"
        by (simp add: unat_eq_0)
      then have "\<not> bit (Bits_insert (completed s) (unat (slot - last_slot s))) 0"
        using inv by (auto simp: Bits_insert_def bit_set_bit_iff sync_inv_def)
      moreover have "exec STOP s c =
          s\<lparr>completed := Bits_insert (completed s) (unat (slot - last_slot s))\<rparr>"
        using Finish ord live False by (simp add: finish_def)
      moreover have "unat (last_slot s) + popcount (completed s) \<le> n"
        using inv live by (simp add: sync_inv_def)
      ultimately show ?thesis
        using ord popcount_insert [of "completed s" "unat (slot - last_slot s)"]
        by (auto simp: sync_inv_def)
    next
      case True
      show ?thesis
      proof (cases "mutex s = None \<or> mutex s = Some lk")
        case False
        then have "exec STOP s c = s"
          using Finish ord live True by (auto simp: finish_def owns_lock_def)
        then show ?thesis using inv by (auto intro: sync_inv_mono)
      next
        case free: True
        from finish_own_slot [OF inv n live free] obtain k where
          k: "finish STOP s lk (last_slot s) =
           Returns (s\<lparr>last_slot := last_slot s + 1 + of_nat k,
                      completed := drop_bit (Suc k) (completed s),
                      mutex := None, turn := Suc (turn s)\<rparr>)"
          "\<not> bit (completed s) (Suc k)"
          "unat (last_slot s + 1 + of_nat k) = unat (last_slot s) + Suc k"
          "popcount (completed s) = k + popcount (drop_bit (Suc k) (completed s))"
          by blast
        have "unat (last_slot s) + popcount (completed s) \<le> n"
          using inv live by (simp add: sync_inv_def)
        then show ?thesis
          using Finish True k ord
          by (auto simp: sync_inv_def bit_drop_bit_eq simp del: of_nat_Suc)
      qed
    qed
  qed
qed

lemma sync_inv_run:
  "length cs < 2 ^ 64 \<Longrightarrow> sync_inv STOP (length cs) (run STOP (Sync_init ORDERED) cs)"
proof (induction cs rule: rev_induct)
  case Nil
  show ?case by (simp add: run_def sync_inv_init)
next
  case (snoc c cs)
  then have "sync_inv STOP (length cs) (run STOP (Sync_init ORDERED) cs)" by simp
  moreover have "Suc (length cs) < 2 ^ 64" using snoc.prems by simp
  ultimately show ?case
    using sync_inv_exec by (simp add: run_def)
qed

lemma last_slot_exec_mono:
  assumes inv: "sync_inv STOP n s" and n: "Suc n < 2 ^ 64"
  shows "last_slot s \<le> last_slot (exec STOP s c) \<or> last_slot (exec STOP s c) = STOP"
proof (cases c)
  case (Acquire lk slot)
  then show ?thesis
    by (auto simp: acquire_def split: if_splits Mode.splits)
next
  case (Try_acquire lk)
  then show ?thesis by (auto simp: try_acquire_def split: Mode.splits)
next
  case (Release lk)
  then show ?thesis by (auto simp: release_def split: Mode.splits)
next
  case Cancel
  then show ?thesis by (auto simp: cancel_def split: Mode.splits)
next
  case (Finish lk slot)
  have ord: "mode s = ORDERED" using inv by (simp add: sync_inv_def)
  show ?thesis
  proof (cases "last_slot s \<noteq> STOP \<and> slot = last_slot s \<and> (mutex s = None \<or> mutex s = Some lk)")
    case False
    then show ?thesis
      using Finish ord by (auto simp: finish_def owns_lock_def)
  next
    case True
    then obtain k where
      "finish STOP s lk (last_slot s) =
           Returns (s\<lparr>last_slot := last_slot s + 1 + of_nat k,
                      completed := drop_bit (Suc k) (completed s),
                      mutex := None, turn := Suc (turn s)\<rparr>)"
      "unat (last_slot s + 1 + of_nat k) = unat (last_slot s) + Suc k"
      using finish_own_slot [OF inv n] by blast
    then show ?thesis
      using Finish True by (auto simp: word_le_nat_alt simp del: of_nat_Suc)
  qed
qed

text \<open>
  Claim C1. A \<^verbatim>\<open>Sync\<close> in ORDERED mode, after any sequence \<open>cs\<close> of acquire, try_acquire,
  release, finish and cancel calls made from its initial state, and one more call \<open>c\<close>
  (fewer than \<open>2^64 - 1\<close> calls in all, so that \<^verbatim>\<open>size_t\<close> has not wrapped around):
  \<^verbatim>\<open>last\<close> has not decreased unless it is now the sentinel; every bit recorded in
  \<^verbatim>\<open>completed\<close> has an index above 0, that is, stands for a slot above \<^verbatim>\<open>last\<close>; and a
  \<^verbatim>\<open>finish(slot)\<close> with \<^verbatim>\<open>slot == last\<close> that is not cancelled and can take the mutex
  has advanced \<^verbatim>\<open>last\<close> by \<open>1 + k\<close> and shifted \<^verbatim>\<open>completed\<close> right by \<open>1 + k\<close>, where
  \<open>k\<close> is the length of the run of set bits from bit 1 on, and bit 0 is clear on return.
\<close>

theorem sync_ordered_invariants:
  assumes len: "Suc (length cs) < 2 ^ 64"
    and s: "s = run STOP (Sync_init ORDERED) cs"
    and s': "s' = exec STOP s c"
  shows "(last_slot s \<le> last_slot s' \<or> last_slot s' = STOP)
       \<and> (\<forall>i. Bits_test (completed s') i \<longrightarrow> 0 < i)
       \<and> (\<forall>lk. c = Finish lk (last_slot s) \<and> last_slot s \<noteq> STOP
               \<and> (mutex s = None \<or> mutex s = Some lk) \<longrightarrow>
            (\<exists>k. last_slot s' = last_slot s + 1 + of_nat k
                \<and> completed s' = drop_bit (Suc k) (completed s)
                \<and> (\<forall>i. 1 \<le> i \<and> i \<le> k \<longrightarrow> Bits_test (completed s) i)
                \<and> \<not> Bits_test (completed s) (Suc k)
                \<and> \<not> Bits_test (completed s') 0))"
proof -
  have inv: "sync_inv STOP (length cs) s"
    unfolding s using len by (intro sync_inv_run) simp
  have inv': "sync_inv STOP (Suc (length cs)) s'"
    unfolding s' using inv len by (rule sync_inv_exec)
  have mono: "last_slot s \<le> last_slot s' \<or> last_slot s' = STOP"
    unfolding s' using inv len by (rule last_slot_exec_mono)
  have bit0: "\<not> bit (completed s') 0"
    using inv' by (simp add: sync_inv_def)
  have above: "\<forall>i. Bits_test (completed s') i \<longrightarrow> 0 < i"
  proof (intro allI impI)
    fix i assume "Bits_test (completed s') i"
    with bit0 show "0 < i" by (cases i) (auto simp: Bits_test_def)
  qed
  have fin: "\<forall>lk. c = Finish lk (last_slot s) \<and> last_slot s \<noteq> STOP
               \<and> (mutex s = None \<or> mutex s = Some lk) \<longrightarrow>
            (\<exists>k. last_slot s' = last_slot s + 1 + of_nat k
                \<and> completed s' = drop_bit (Suc k) (completed s)
                \<and> (\<forall>i. 1 \<le> i \<and> i \<le> k \<longrightarrow> Bits_test (completed s) i)
                \<and> \<not> Bits_test (completed s) (Suc k)
                \<and> \<not> Bits_test (completed s') 0)"
  proof (intro allI impI)
    fix lk
    assume a: "c = Finish lk (last_slot s) \<and> last_slot s \<noteq> STOP
               \<and> (mutex s = None \<or> mutex s = Some lk)"
    then obtain k where k: "finish STOP s lk (last_slot s) =
           Returns (s\<lparr>last_slot := last_slot s + 1 + of_nat k,
                      completed := drop_bit (Suc k) (completed s),
                      mutex := None, turn := Suc (turn s)\<rparr>)"
        "\<forall>i. 1 \<le> i \<and> i \<le> k \<longrightarrow> bit (completed s) i"
        "\<not> bit (completed s) (Suc k)"
      using finish_own_slot [OF inv len] by blast
    have "s' = s\<lparr>last_slot := last_slot s + 1 + of_nat k,
                      completed := drop_bit (Suc k) (completed s),
                      mutex := None, turn := Suc (turn s)\<rparr>"
      using a k(1) by (simp add: s')
    then show "\<exists>k. last_slot s' = last_slot s + 1 + of_nat k
                \<and> completed s' = drop_bit (Suc k) (completed s)
                \<and> (\<forall>i. 1 \<le> i \<and> i \<le> k \<longrightarrow> Bits_test (completed s) i)
                \<and> \<not> Bits_test (completed s) (Suc k)
                \<and> \<not> Bits_test (completed s') 0"
      using k(2,3) bit0 by (intro exI [of _ k]) (simp add: Bits_test_def)
  qed
  from mono above fin show ?thesis by blast
qed




text \<open>
  The three-worker scenario: slot 0 holds the mutex, slots 1 and 2 finish first and are
  recorded as bits 1 and 2; then \<^verbatim>\<open>finish(0)\<close> moves \<^verbatim>\<open>last\<close> to 3 and empties the bitset.
\<close>

theorem sync_ordered_invariants_witness:
  "let cs = [Acquire 0 0, Finish 1 1, Finish 2 2];
       s = run (- 1) (Sync_init ORDERED) cs;
       s' = exec (- 1) s (Finish 0 0)
   in Suc (length cs) < 2 ^ 64 \<and> last_slot s = 0 \<and> last_slot s \<noteq> - 1 \<and> mutex s = Some 0
      \<and> completed s = 6 \<and> last_slot s' = 3 \<and> completed s' = 0
      \<and> (last_slot s \<le> last_slot s' \<or> last_slot s' = - 1)
      \<and> (\<forall>i. Bits_test (completed s') i \<longrightarrow> 0 < i)
      \<and> (\<exists>k. last_slot s' = last_slot s + 1 + of_nat k
                \<and> completed s' = drop_bit (Suc k) (completed s)
                \<and> (\<forall>i. 1 \<le> i \<and> i \<le> k \<longrightarrow> Bits_test (completed s) i)
                \<and> \<not> Bits_test (completed s) (Suc k)
                \<and> \<not> Bits_test (completed s') 0)"
proof -
  define cs where "cs = [Acquire 0 0, Finish 1 1, Finish 2 2]"
  define s where "s = run (- 1) (Sync_init ORDERED) cs"
  define s' where "s' = exec (- 1) s (Finish 0 0)"
  have len: "Suc (length cs) < 2 ^ 64"
    by (simp add: cs_def)
  have s_eq: "s = \<lparr>mode = ORDERED, mutex = Some 0, turn = 0, next_slot = 0, last_slot = 0,
                    completed = 6\<rparr>"
    by (simp add: s_def cs_def run_def Sync_init_def acquire_def finish_def owns_lock_def
        Bits_insert_def)
  have b1: "bump 2 (Suc 0) = (3, 0)"
    by (subst bump.simps) (simp add: Bits_rshift_def Bits_test_def bit_0)
  have b3: "bump 1 3 = (3, 0)"
    by (subst bump.simps) (simp add: Bits_rshift_def Bits_test_def bit_0 b1)
  have b: "bump 0 6 = (3, 0)"
    by (subst bump.simps) (simp add: Bits_rshift_def Bits_test_def bit_0 b3)
  have s'_eq: "s' = \<lparr>mode = ORDERED, mutex = None, turn = 1, next_slot = 0, last_slot = 3,
                    completed = 0\<rparr>"
    by (simp add: s'_def s_eq finish_def owns_lock_def b)
  note inst = sync_ordered_invariants [OF len s_def s'_def]
  have pre: "Finish 0 0 = Finish 0 (last_slot s) \<and> last_slot s \<noteq> - 1
             \<and> (mutex s = None \<or> mutex s = Some 0)"
    by (simp add: s_eq)
  from inst pre have
    "(last_slot s \<le> last_slot s' \<or> last_slot s' = - 1)
      \<and> (\<forall>i. Bits_test (completed s') i \<longrightarrow> 0 < i)
      \<and> (\<exists>k. last_slot s' = last_slot s + 1 + of_nat k
                \<and> completed s' = drop_bit (Suc k) (completed s)
                \<and> (\<forall>i. 1 \<le> i \<and> i \<le> k \<longrightarrow> Bits_test (completed s) i)
                \<and> \<not> Bits_test (completed s) (Suc k)
                \<and> \<not> Bits_test (completed s') 0)"
    by blast
  moreover have "last_slot s = 0 \<and> last_slot s \<noteq> - 1 \<and> mutex s = Some 0 \<and> completed s = 6"
    by (simp add: s_eq)
  moreover have "last_slot s' = 3 \<and> completed s' = 0"
    by (simp add: s'_eq)
  ultimately show ?thesis
    using len unfolding Let_def s'_def [symmetric] s_def [symmetric] cs_def [symmetric]
    by blast
qed

lemma cancelled_exec: "cancelled STOP s \<Longrightarrow> cancelled STOP (exec STOP s c)"
  by (cases c)
     (auto simp: cancelled_def acquire_def try_acquire_def release_def finish_def cancel_def
           split: Mode.splits)

lemma cancelled_run: "cancelled STOP s \<Longrightarrow> cancelled STOP (run STOP s cs)"
  unfolding run_def by (induction cs arbitrary: s) (simp_all add: cancelled_exec)

lemma cancelled_cancel: "cancelled STOP (cancel STOP s)"
  by (simp add: cancelled_def cancel_def split: Mode.splits)

text \<open>
  Claim C5 says that after cancel every \<^verbatim>\<open>finish\<close> releases a held lock and broadcasts.
  In UNORDERED mode \<^verbatim>\<open>finish\<close> is the empty case of the switch: a cancelled Sync whose
  mutex is held by lock 7 is returned unchanged, the mutex still held and nothing notified.
\<close>

theorem sync_cancel_finish_counterexample:
  "cancelled (- 1) (cancel (- 1) (exec (- 1) (Sync_init UNORDERED) (Acquire 7 0)))
   \<and> mutex (cancel (- 1) (exec (- 1) (Sync_init UNORDERED) (Acquire 7 0))) = Some 7
   \<and> finish (- 1) (cancel (- 1) (exec (- 1) (Sync_init UNORDERED) (Acquire 7 0))) 7 0 =
       Returns \<lparr>mode = UNORDERED, mutex = Some 7, turn = 0, next_slot = 0,
                last_slot = - 1, completed = 0\<rparr>"
  by (simp add: cancelled_def cancel_def Sync_init_def acquire_def owns_lock_def finish_def)

text \<open>
  Claim C5, amended. In every state \<open>s\<close> reached from a \<^verbatim>\<open>cancel()\<close> by any sequence of
  calls: \<^verbatim>\<open>cancelled()\<close> is true; \<^verbatim>\<open>acquire\<close> never waits for a turn, and returns
  whenever the mutex is free or already owned by the caller; the next call leaves
  \<^verbatim>\<open>last\<close> at the sentinel; in ORDERED mode \<^verbatim>\<open>finish\<close> releases the mutex if the caller
  holds it and broadcasts, changing neither \<^verbatim>\<open>last\<close> nor \<^verbatim>\<open>completed\<close>; in UNORDERED
  mode \<^verbatim>\<open>finish\<close> changes nothing.
\<close>

theorem sync_cancel_absorbing:
  assumes s: "s = run STOP (cancel STOP s0) cs"
  shows "cancelled STOP s
       \<and> acquire STOP s lk slot \<noteq> Waits
       \<and> (mutex s = None \<or> mutex s = Some lk \<longrightarrow> (\<exists>s'. acquire STOP s lk slot = Returns s'))
       \<and> last_slot (exec STOP s c) = STOP
       \<and> (mode s = ORDERED \<longrightarrow>
            finish STOP s lk slot =
              Returns (s\<lparr>mutex := (if mutex s = Some lk then None else mutex s),
                         turn := Suc (turn s)\<rparr>))
       \<and> (mode s = UNORDERED \<longrightarrow> finish STOP s lk slot = Returns s)"
proof -
  have c: "cancelled STOP s"
    unfolding s by (intro cancelled_run cancelled_cancel)
  then have l: "last_slot s = STOP"
    by (simp add: cancelled_def)
  have "acquire STOP s lk slot \<noteq> Waits"
    using l by (auto simp: acquire_def split: Mode.splits)
  moreover have "mutex s = None \<or> mutex s = Some lk \<longrightarrow> (\<exists>s'. acquire STOP s lk slot = Returns s')"
    using l by (auto simp: acquire_def owns_lock_def split: Mode.splits)
  moreover have "last_slot (exec STOP s c) = STOP"
    using cancelled_exec [OF c, of c] by (simp add: cancelled_def)
  moreover have "mode s = ORDERED \<longrightarrow>
            finish STOP s lk slot =
              Returns (s\<lparr>mutex := (if mutex s = Some lk then None else mutex s),
                         turn := Suc (turn s)\<rparr>)"
    using l by (auto simp: finish_def owns_lock_def)
  moreover have "mode s = UNORDERED \<longrightarrow> finish STOP s lk slot = Returns s"
    by (simp add: finish_def)
  ultimately show ?thesis using c by blast
qed

theorem sync_cancel_absorbing_witness:
  "let s = run (- 1) (cancel (- 1) (exec (- 1) (Sync_init ORDERED) (Acquire 0 0)))
             [Finish 1 1, Acquire 2 2]
   in mode s = ORDERED \<and> mutex s = Some 0 \<and> cancelled (- 1) s
      \<and> acquire (- 1) s 0 5 = Returns s
      \<and> last_slot (exec (- 1) s (Finish 0 0)) = - 1
      \<and> finish (- 1) s 0 0 = Returns (s\<lparr>mutex := None, turn := Suc (turn s)\<rparr>)"
proof -
  define s where "s = run (- 1) (cancel (- 1) (exec (- 1) (Sync_init ORDERED) (Acquire 0 0)))
             [Finish 1 1, Acquire 2 2]"
  have m: "mode s = ORDERED \<and> mutex s = Some 0"
    by (simp add: s_def run_def cancel_def Sync_init_def acquire_def finish_def owns_lock_def)
  have a: "acquire (- 1) s 0 5 = Returns s"
    using m by (simp add: acquire_def owns_lock_def)
  from sync_cancel_absorbing [OF s_def, of 0 5 "Finish 0 0"] m a
  have "cancelled (- 1) s \<and> last_slot (exec (- 1) s (Finish 0 0)) = - 1"
    by blast
  moreover from sync_cancel_absorbing [OF s_def, of 0 0 "Finish 0 0"] m
  have "finish (- 1) s 0 0 = Returns (s\<lparr>mutex := None, turn := Suc (turn s)\<rparr>)"
    by simp
  ultimately show ?thesis
    using m a unfolding Let_def s_def [symmetric] by blast
qed

section \<open>Properties of the buffered output\<close>

subsection \<open>Emitting at EOF or on hold never reaches the sink\<close>

lemma untouched_refl: "untouched out out"
  by (simp add: untouched_def)

lemma untouched_trans: "untouched a b \<Longrightarrow> untouched b c \<Longrightarrow> untouched a c"
  by (simp add: untouched_def)

lemma quiet_untouched: "quiet a \<Longrightarrow> untouched a b \<Longrightarrow> quiet b"
  by (simp add: untouched_def quiet_def)

lemma flush_eof: "eof out \<Longrightarrow> flush env out = Some (out\<lparr>buf_m := 0, cur_m := 0\<rparr>)"
  by (simp add: flush_def)

lemma hold_not_flush: "m AND HOLD \<noteq> 0 \<Longrightarrow> m \<noteq> FLUSH"
  by (auto simp: HOLD_def FLUSH_def)

lemma next_buffer_quiet:
  assumes "quiet out"
  shows "\<exists>out'. next_buffer env out = Some out' \<and> untouched out out'"
proof (cases "mode_m out AND HOLD = 0")
  case False
  then show ?thesis
    by (simp add: next_buffer_def untouched_def grow_def)
next
  case True
  with assms have e: "eof out" by (simp add: quiet_def)
  show ?thesis
  proof (cases "sync out")
    case None
    then show ?thesis
      using True e by (simp add: next_buffer_def flush_eof untouched_def)
  next
    case (Some s)
    obtain ok s' where t: "try_acquire s (lock_m out) = (ok, s')"
      by (cases "try_acquire s (lock_m out)")
    show ?thesis
      using True e Some t
      by (cases ok) (simp_all add: next_buffer_def flush_eof untouched_def grow_def)
  qed
qed

lemma chr_quiet:
  assumes "quiet out"
  shows "\<exists>out'. chr env out c = Some out' \<and> untouched out out'"
proof (cases "cur_m out \<ge> SIZE")
  case False
  then show ?thesis by (simp add: chr_def untouched_def)
next
  case True
  from next_buffer_quiet [OF assms] obtain o1 where
    "next_buffer env out = Some o1" "untouched out o1" by blast
  with True show ?thesis by (simp add: chr_def untouched_def)
qed

lemma str_quiet:
  "quiet out \<Longrightarrow> \<exists>out'. str env out s = Some out' \<and> untouched out out'"
proof (induction env out s rule: str.induct)
  case (1 env out s)
  show ?case
  proof (cases "cur_m out + length s \<ge> SIZE")
    case False
    then show ?thesis
      by (subst str.simps) (simp add: copy_in_def untouched_def)
  next
    case True
    let ?k = "SIZE - cur_m out"
    have q: "quiet (copy_in out (take ?k s))"
      using "1.prems" by (simp add: quiet_def copy_in_def)
    from next_buffer_quiet [OF q] obtain o1 where
      o1: "next_buffer env (copy_in out (take ?k s)) = Some o1"
          "untouched (copy_in out (take ?k s)) o1" by blast
    have u: "untouched out o1"
      using o1(2) by (simp add: untouched_def copy_in_def)
    then have "quiet o1"
      using "1.prems" quiet_untouched by blast
    from "1.IH" [OF True refl o1(1) this] obtain o2 where
      "str env o1 (drop ?k s) = Some o2" "untouched o1 o2" by blast
    with u o1(1) True show ?thesis
      by (subst str.simps) (auto simp: Let_def intro: untouched_trans)
  qed
qed

lemma pad_quiet:
  "quiet out \<Longrightarrow> \<exists>out'. pad env out c w n = Some out' \<and> untouched out out'"
proof (induction env out c w n rule: pad.induct)
  case (1 env out c w n)
  show ?case
  proof (cases "w > n")
    case False
    then show ?thesis by (subst pad.simps) (simp add: untouched_refl)
  next
    case True
    from chr_quiet [OF "1.prems"] obtain o1 where
      o1: "chr env out c = Some o1" "untouched out o1" by blast
    then have "quiet o1" using "1.prems" quiet_untouched by blast
    from "1.IH" [OF True o1(1) this] obtain o2 where
      "pad env o1 c (w - 1) n = Some o2" "untouched o1 o2" by blast
    with o1 True show ?thesis
      by (subst pad.simps) (auto intro: untouched_trans)
  qed
qed

lemma hex_quiet:
  assumes "quiet out"
  shows "\<exists>out'. hex env out i w = Some out' \<and> untouched out out'"
proof -
  from pad_quiet [OF assms] obtain o1 where
    o1: "pad env out (CHR ''0'') w (length (hex_digits i [])) = Some o1" "untouched out o1"
    by blast
  then have "quiet o1" using assms quiet_untouched by blast
  from str_quiet [OF this] obtain o2 where
    "str env o1 (hex_digits i []) = Some o2" "untouched o1 o2" by blast
  with o1 show ?thesis
    by (auto simp: hex_def Let_def intro: untouched_trans)
qed

lemma num_quiet:
  assumes "quiet out"
  shows "\<exists>out'. num env out i w = Some out' \<and> untouched out out'"
proof -
  from pad_quiet [OF assms] obtain o1 where
    o1: "pad env out (CHR '' '') w (length (dec_digits i [])) = Some o1" "untouched out o1"
    by blast
  then have "quiet o1" using assms quiet_untouched by blast
  from str_quiet [OF this] obtain o2 where
    "str env o1 (dec_digits i []) = Some o2" "untouched o1 o2" by blast
  with o1 show ?thesis
    by (auto simp: num_def Let_def intro: untouched_trans)
qed

lemma oct_quiet:
  assumes "quiet out"
  shows "\<exists>out'. oct env out i = Some out' \<and> untouched out out'"
proof -
  let ?b = "nat (i mod 256)"
  from chr_quiet [OF assms] obtain o1 where
    o1: "chr env out (char_of (48 + ?b div 64)) = Some o1" "untouched out o1" by blast
  then have "quiet o1" using assms quiet_untouched by blast
  from chr_quiet [OF this] obtain o2 where
    o2: "chr env o1 (char_of (48 + (?b div 8) mod 8)) = Some o2" "untouched o1 o2" by blast
  then have "quiet o2" using \<open>quiet o1\<close> quiet_untouched by blast
  from chr_quiet [OF this] obtain o3 where
    o3: "chr env o2 (char_of (48 + ?b mod 8)) = Some o3" "untouched o2 o3" by blast
  from o1 o2 o3 show ?thesis
    by (auto simp: oct_def Let_def intro: untouched_trans)
qed

lemma uri_quiet:
  "quiet out \<Longrightarrow> \<exists>out'. uri env out s = Some out' \<and> untouched out out'"
proof (induction s arbitrary: out)
  case Nil
  show ?case by (simp add: untouched_refl)
next
  case (Cons c s)
  show ?case
  proof (cases "c = CHR 0x00")
    case True
    then show ?thesis by (simp add: untouched_refl)
  next
    case nz: False
    show ?thesis
    proof (cases "(0x20::nat) \<le> of_char c \<and> (of_char c :: nat) \<le> 0x7e
              \<and> c \<noteq> CHR ''%'' \<and> c \<noteq> CHR '';''")
      case True
      from chr_quiet [OF Cons.prems] obtain o1 where
        o1: "chr env out c = Some o1" "untouched out o1" by blast
      then have "quiet o1" using Cons.prems quiet_untouched by blast
      from Cons.IH [OF this] obtain o2 where
        "uri env o1 s = Some o2" "untouched o1 o2" by blast
      with o1 nz True show ?thesis
        by (auto intro: untouched_trans)
    next
      case False
      from chr_quiet [OF Cons.prems] obtain o1 where
        o1: "chr env out (CHR ''%'') = Some o1" "untouched out o1" by blast
      then have q1: "quiet o1" using Cons.prems quiet_untouched by blast
      from hex_quiet [OF q1] obtain o2 where
        o2: "hex env o1 (of_nat (of_char c)) 2 = Some o2" "untouched o1 o2" by blast
      then have "quiet o2" using q1 quiet_untouched by blast
      from Cons.IH [OF this] obtain o3 where
        "uri env o2 s = Some o3" "untouched o2 o3" by blast
      with o1 o2 nz False show ?thesis
        by (auto intro: untouched_trans)
    qed
  qed
qed

lemma check_flush_quiet:
  assumes "quiet out"
  shows "\<exists>out'. check_flush env out = Some out' \<and> untouched out out'"
proof (cases "mode_m out = FLUSH")
  case False
  then show ?thesis by (simp add: check_flush_def untouched_refl)
next
  case True
  with assms have "eof out"
    using hold_not_flush by (auto simp: quiet_def)
  with True show ?thesis
    by (simp add: check_flush_def flush_eof untouched_def)
qed

lemma nl_quiet:
  assumes "quiet out"
  shows "\<exists>out'. nl env out lf = Some out' \<and> untouched out out'"
proof -
  have "\<exists>o1. (if \<not> lf \<and> OS_WIN env then chr env out (CHR 0x0D) else Some out) = Some o1
          \<and> untouched out o1"
    using chr_quiet [OF assms, of env "CHR 0x0D"]
    by (cases "\<not> lf \<and> OS_WIN env") (simp_all add: untouched_refl)
  then obtain o1 where o1:
    "(if \<not> lf \<and> OS_WIN env then chr env out (CHR 0x0D) else Some out) = Some o1"
    "untouched out o1"
    by blast
  then have q1: "quiet o1" using assms quiet_untouched by blast
  from chr_quiet [OF q1] obtain o2 where
    o2: "chr env o1 (CHR 0x0A) = Some o2" "untouched o1 o2" by blast
  then have "quiet o2" using q1 quiet_untouched by blast
  from check_flush_quiet [OF this] obtain o3 where
    o3: "check_flush env o2 = Some o3" "untouched o2 o3" by blast
  have "nl env out lf = Some o3"
    unfolding nl_def using o1(1) o2(1) o3(1) by simp
  moreover have "untouched out o3"
    using o1(2) o2(2) o3(2) by (blast intro: untouched_trans)
  ultimately show ?thesis by blast
qed

lemma emit_quiet:
  assumes "quiet out" and "e \<noteq> Flush"
  shows "\<exists>out'. emit env out e = Some out' \<and> untouched out out'"
proof (cases e)
  case (Str_z s)
  show ?thesis
  proof (cases "takeWhile (\<lambda>c. c \<noteq> CHR 0x00) s")
    case Nil
    then show ?thesis using Str_z by (simp add: str_z_def untouched_refl)
  next
    case (Cons c z)
    then show ?thesis
      using Str_z chr_quiet [OF assms(1), of env c] str_quiet [OF assms(1), of env "c # z"]
      by (cases z) (simp_all add: str_z_def)
  qed
qed (use assms chr_quiet str_quiet uri_quiet num_quiet hex_quiet oct_quiet nl_quiet
       in \<open>simp_all add: utf8strn_def\<close>)

subsection \<open>What a flush writes\<close>

lemma sink_add_Nil: "sink_add f [] = f"
  by (cases "room f") (simp_all add: sink_add_def)

lemma sink_add_append: "sink_add (sink_add f a) b = sink_add f (a @ b)"
  by (cases "room f") (simp_all add: sink_add_def)

lemma fits_append:
  "fits (room f) (length (a @ b)) \<longleftrightarrow> fits (room f) (length a) \<and> fits (room (sink_add f a)) (length b)"
  by (cases "room f") (auto simp: fits_def sink_add_def)

lemma dead_cancel: "dead env (Output_cancel env out)"
proof -
  have "cancelled (UNDEFINED_SIZE env) (cancel (UNDEFINED_SIZE env) s)" for s
    by (cases "mode s") (simp_all add: cancelled_def cancel_def)
  then show ?thesis
    by (auto simp: dead_def Output_cancel_def)
qed

lemma write_block_fits:
  "flag_width env = 0 \<Longrightarrow> fits (room (file_sink out)) (length data) \<Longrightarrow>
   write_block env out data = (False, out\<lparr>file_sink := sink_add (file_sink out) data\<rparr>)"
  by (cases "room (file_sink out)")
     (auto simp: write_block_def fwrite_def fits_def sink_add_def Let_def min_def)

lemma write_block_short:
  "flag_width env = 0 \<Longrightarrow> \<not> fits (room (file_sink out)) (length data) \<Longrightarrow>
   fst (write_block env out data)"
  by (cases "room (file_sink out)")
     (auto simp: write_block_def fwrite_def fits_def Let_def min_def)

lemma write_block_keeps:
  "write_block env out data = (failed, out') \<Longrightarrow>
   eof out' = eof out \<and> sync out' = sync out \<and> buf_m out' = buf_m out \<and> cur_m out' = cur_m out
   \<and> buffers_m out' = buffers_m out \<and> mode_m out' = mode_m out"
  by (auto simp: write_block_def split: if_splits prod.splits)

lemma flush_buffers_dead:
  "\<not> eof out \<Longrightarrow> eof (flush_buffers env out bs) \<Longrightarrow> dead env (flush_buffers env out bs)"
proof (induction bs arbitrary: out)
  case Nil
  then show ?case by simp
next
  case (Cons b bs)
  obtain failed out' where w: "write_block env out (block b) = (failed, out')"
    by (cases "write_block env out (block b)")
  then have e: "\<not> eof out'"
    using Cons.prems(1) write_block_keeps by blast
  show ?case
  proof (cases failed)
    case True
    with w show ?thesis by (simp add: dead_cancel)
  next
    case False
    with w Cons.prems(2) have "eof (flush_buffers env out' bs)" by simp
    from Cons.IH [OF e this] w False show ?thesis by simp
  qed
qed

lemma flush_buffers_alive:
  "flag_width env = 0 \<Longrightarrow> \<not> eof (flush_buffers env out bs) \<Longrightarrow>
   fits (room (file_sink out)) (length (concat (map block bs)))
   \<and> flush_buffers env out bs =
       out\<lparr>file_sink := sink_add (file_sink out) (concat (map block bs))\<rparr>"
proof (induction bs arbitrary: out)
  case Nil
  then show ?case by (simp add: sink_add_Nil fits_def split: option.splits)
next
  case (Cons b bs)
  have f: "fits (room (file_sink out)) (length (block b))"
  proof (rule ccontr)
    assume "\<not> fits (room (file_sink out)) (length (block b))"
    then have "fst (write_block env out (block b))"
      using Cons.prems(1) write_block_short by simp
    then have "eof (flush_buffers env out (b # bs))"
      by (auto simp: Output_cancel_def split: prod.splits)
    with Cons.prems(2) show False by simp
  qed
  let ?o = "out\<lparr>file_sink := sink_add (file_sink out) (block b)\<rparr>"
  have w: "write_block env out (block b) = (False, ?o)"
    using write_block_fits [OF Cons.prems(1), of out "block b"] f by simp
  then have step: "flush_buffers env out (b # bs) = flush_buffers env ?o bs"
    by simp
  with Cons.prems(2) have "\<not> eof (flush_buffers env ?o bs)" by simp
  from Cons.IH [OF Cons.prems(1) this]
  have ih: "fits (room (file_sink ?o)) (length (concat (map block bs)))"
       "flush_buffers env ?o bs =
          ?o\<lparr>file_sink := sink_add (file_sink ?o) (concat (map block bs))\<rparr>"
    by simp_all
  have "fits (room (file_sink out)) (length (block b @ concat (map block bs)))"
    using f ih(1) by (subst fits_append) simp
  moreover have "flush_buffers env out (b # bs) =
       out\<lparr>file_sink := sink_add (file_sink out) (block b @ concat (map block bs))\<rparr>"
    using step ih(2) by (simp add: sink_add_append)
  ultimately show ?case by simp
qed

lemma flush_buffers_fits:
  "flag_width env = 0 \<Longrightarrow> fits (room (file_sink out)) (length (concat (map block bs))) \<Longrightarrow>
   flush_buffers env out bs =
       out\<lparr>file_sink := sink_add (file_sink out) (concat (map block bs))\<rparr>"
proof (induction bs arbitrary: out)
  case Nil
  then show ?case by (simp add: sink_add_Nil)
next
  case (Cons b bs)
  let ?o = "out\<lparr>file_sink := sink_add (file_sink out) (block b)\<rparr>"
  have f: "fits (room (file_sink out)) (length (block b))"
      "fits (room (file_sink ?o)) (length (concat (map block bs)))"
    using Cons.prems(2) fits_append [of "file_sink out" "block b" "concat (map block bs)"]
    by simp_all
  have w: "write_block env out (block b) = (False, ?o)"
    using write_block_fits [OF Cons.prems(1), of out "block b"] f(1) by simp
  from Cons.IH [OF Cons.prems(1) f(2)] w show ?case
    by (simp add: sink_add_append)
qed

lemma flush_buffers_keeps:
  "buf_m (flush_buffers env out bs) = buf_m out \<and> cur_m (flush_buffers env out bs) = cur_m out
   \<and> buffers_m (flush_buffers env out bs) = buffers_m out
   \<and> mode_m (flush_buffers env out bs) = mode_m out"
proof (induction bs arbitrary: out)
  case Nil
  show ?case by simp
next
  case (Cons b bs)
  obtain failed out' where w: "write_block env out (block b) = (failed, out')"
    by (cases "write_block env out (block b)")
  from write_block_keeps [OF w] Cons.IH [of out'] w show ?case
    by (cases failed) (simp_all add: Output_cancel_def)
qed

lemma Output_acquire_keeps:
  "Output_acquire env out = Some o1 \<Longrightarrow>
   file_sink o1 = file_sink out \<and> eof o1 = eof out \<and> buf_m o1 = buf_m out
   \<and> cur_m o1 = cur_m out \<and> buffers_m o1 = buffers_m out \<and> mode_m o1 = mode_m out"
  by (auto simp: Output_acquire_def split: option.splits call_result.splits)

lemma flush_last_cases:
  assumes "\<not> eof out"
  obtains (short) o' where "flush_last env out = Output_cancel env o'"
  | (full) o' where "flush_last env out = o'" "\<not> eof o'" "sync o' = sync out"
      "buf_m o' = buf_m out" "cur_m o' = cur_m out" "buffers_m o' = buffers_m out"
      "mode_m o' = mode_m out"
proof -
  let ?d = "map (buffers_m out ! buf_m out) [0..<cur_m out]"
  obtain failed o' where wb: "write_block env out ?d = (failed, o')"
    by (cases "write_block env out ?d")
  note k = write_block_keeps [OF wb]
  let ?o3 = "if cur_m out > 0 then (if failed then Output_cancel env o' else o') else out"
  have fl: "flush_last env out =
      (if \<not> eof ?o3 \<and> fflush_fails (file_sink ?o3) then Output_cancel env ?o3 else ?o3)"
    using assms wb by (simp add: flush_last_def Let_def)
  show thesis
  proof (cases "cur_m out > 0 \<and> failed")
    case True
    then have "flush_last env out = Output_cancel env o'"
      using fl by (simp add: Output_cancel_def)
    then show thesis by (rule short)
  next
    case False
    then have o3: "?o3 = (if cur_m out > 0 then o' else out)" by auto
    show thesis
    proof (cases "fflush_fails (file_sink ?o3)")
      case True
      then have "flush_last env out = Output_cancel env ?o3"
        using fl o3 assms k by auto
      then show thesis by (rule short)
    next
      case nf: False
      then have "flush_last env out = ?o3"
        using fl by simp
      then show thesis
        using o3 assms k by (intro full [of ?o3]) auto
    qed
  qed
qed

lemma flush_last_dead:
  "\<not> eof out \<Longrightarrow> eof (flush_last env out) \<Longrightarrow> dead env (flush_last env out)"
  by (erule flush_last_cases [of out env]) (simp_all add: dead_cancel)

lemma Output_cancel_keeps:
  "buf_m (Output_cancel env out) = buf_m out \<and> cur_m (Output_cancel env out) = cur_m out
   \<and> buffers_m (Output_cancel env out) = buffers_m out
   \<and> mode_m (Output_cancel env out) = mode_m out
   \<and> file_sink (Output_cancel env out) = file_sink out"
  by (simp add: Output_cancel_def)

lemma flush_last_keeps:
  "buf_m (flush_last env out) = buf_m out \<and> cur_m (flush_last env out) = cur_m out
   \<and> buffers_m (flush_last env out) = buffers_m out \<and> mode_m (flush_last env out) = mode_m out"
proof (cases "eof out")
  case True
  then show ?thesis by (simp add: flush_last_def)
next
  case False
  let ?d = "map (buffers_m out ! buf_m out) [0..<cur_m out]"
  obtain failed o' where wb: "write_block env out ?d = (failed, o')"
    by (cases "write_block env out ?d")
  note k = write_block_keeps [OF wb]
  let ?o3 = "if cur_m out > 0 then (if failed then Output_cancel env o' else o') else out"
  have fl: "flush_last env out =
      (if \<not> eof ?o3 \<and> fflush_fails (file_sink ?o3) then Output_cancel env ?o3 else ?o3)"
    using False wb by (simp add: flush_last_def Let_def)
  have "buf_m ?o3 = buf_m out \<and> cur_m ?o3 = cur_m out
   \<and> buffers_m ?o3 = buffers_m out \<and> mode_m ?o3 = mode_m out"
    using k by (simp add: Output_cancel_keeps)
  then show ?thesis
    unfolding fl by (simp add: Output_cancel_keeps)
qed

lemma flush_last_alive:
  assumes w: "flag_width env = 0" and alive: "\<not> eof (flush_last env out)"
  shows "fits (room (file_sink out)) (cur_m out) \<and> flush_ok (file_sink out)
       \<and> flush_last env out =
           out\<lparr>file_sink := sink_add (file_sink out)
                               (map (buffers_m out ! buf_m out) [0..<cur_m out])\<rparr>"
proof -
  let ?d = "map (buffers_m out ! buf_m out) [0..<cur_m out]"
  have e: "\<not> eof out"
    using alive by (auto simp: flush_last_def)
  have f: "fits (room (file_sink out)) (length ?d)"
  proof (rule ccontr)
    assume n: "\<not> fits (room (file_sink out)) (length ?d)"
    then have "cur_m out > 0" by (auto simp: fits_def split: option.splits)
    moreover have "fst (write_block env out ?d)"
      using w n by (rule write_block_short)
    ultimately have "eof (flush_last env out)"
      using e by (auto simp: flush_last_def Let_def Output_cancel_def split: prod.splits)
    with alive show False by simp
  qed
  have wb: "write_block env out ?d = (False, out\<lparr>file_sink := sink_add (file_sink out) ?d\<rparr>)"
    using w f by (rule write_block_fits)
  let ?o3 = "out\<lparr>file_sink := sink_add (file_sink out) ?d\<rparr>"
  have o3: "(if cur_m out > 0
            then (case write_block env out ?d of
                    (failed, out') \<Rightarrow> if failed then Output_cancel env out' else out')
            else out) = ?o3"
    using wb by (simp add: sink_add_Nil)
  have fl: "flush_last env out =
      (if fflush_fails (file_sink ?o3) then Output_cancel env ?o3 else ?o3)"
    using e o3 by (simp add: flush_last_def Let_def)
  have ok: "\<not> fflush_fails (file_sink ?o3)"
  proof
    assume "fflush_fails (file_sink ?o3)"
    with fl have "eof (flush_last env out)" by (simp add: Output_cancel_def)
    with alive show False by simp
  qed
  then have "flush_ok (file_sink out)"
    by (simp add: fflush_fails_def sink_add_def)
  with f fl ok show ?thesis by simp
qed

lemma flush_last_fits:
  assumes w: "flag_width env = 0" and e: "\<not> eof out"
    and f: "fits (room (file_sink out)) (cur_m out)" and ok: "flush_ok (file_sink out)"
  shows "flush_last env out =
           out\<lparr>file_sink := sink_add (file_sink out)
                               (map (buffers_m out ! buf_m out) [0..<cur_m out])\<rparr>"
proof -
  let ?d = "map (buffers_m out ! buf_m out) [0..<cur_m out]"
  let ?o3 = "out\<lparr>file_sink := sink_add (file_sink out) ?d\<rparr>"
  have wb: "write_block env out ?d = (False, ?o3)"
    using w f by (intro write_block_fits) simp_all
  have o3: "(if cur_m out > 0
            then (case write_block env out ?d of
                    (failed, out') \<Rightarrow> if failed then Output_cancel env out' else out')
            else out) = ?o3"
    using wb by (simp add: sink_add_Nil)
  have "\<not> fflush_fails (file_sink ?o3)"
    using ok by (simp add: fflush_fails_def sink_add_def)
  then show ?thesis
    using e o3 by (simp add: flush_last_def Let_def)
qed

lemma flush_dead:
  assumes e: "\<not> eof out" and fl: "flush env out = Some o1" and e1: "eof o1"
  shows "dead env o1"
proof -
  have b: "buf_m out \<noteq> 0 \<or> cur_m out > 0"
    using e fl e1 by (auto simp: flush_def split: if_splits)
  then obtain oa where oa: "Output_acquire env out = Some oa"
    using e fl by (auto simp: flush_def split: option.splits)
  let ?o2 = "flush_buffers env oa (take (buf_m oa) (buffers_m oa))"
  have o1: "o1 = (flush_last env ?o2)\<lparr>buf_m := 0, cur_m := 0\<rparr>"
    using e fl b oa by (simp add: flush_def Let_def)
  have ea: "\<not> eof oa"
    using e Output_acquire_keeps [OF oa] by simp
  have "dead env (flush_last env ?o2)"
  proof (cases "eof ?o2")
    case True
    then have "dead env ?o2" using ea flush_buffers_dead by blast
    with True show ?thesis by (simp add: flush_last_def)
  next
    case False
    moreover have "eof (flush_last env ?o2)"
      using e1 o1 by simp
    ultimately show ?thesis by (rule flush_last_dead)
  qed
  then show ?thesis
    by (simp add: o1 dead_def)
qed

lemma flush_alive:
  assumes w: "flag_width env = 0" and e: "\<not> eof out" and fl: "flush env out = Some o1"
    and e1: "\<not> eof o1" and b: "buf_m out \<noteq> 0 \<or> cur_m out > 0"
  shows "fits (room (file_sink out)) (length (pending out)) \<and> flush_ok (file_sink out)
       \<and> file_sink o1 = sink_add (file_sink out) (pending out)"
proof -
  obtain oa where oa: "Output_acquire env out = Some oa"
    using e fl b by (auto simp: flush_def split: option.splits)
  note k = Output_acquire_keeps [OF oa]
  let ?bs = "take (buf_m out) (buffers_m out)"
  let ?o2 = "flush_buffers env oa ?bs"
  have o1: "o1 = (flush_last env ?o2)\<lparr>buf_m := 0, cur_m := 0\<rparr>"
    using e fl b oa k by (simp add: flush_def Let_def)
  then have a5: "\<not> eof (flush_last env ?o2)"
    using e1 by simp
  then have a2: "\<not> eof ?o2"
    by (auto simp: flush_last_def)
  from flush_buffers_alive [OF w a2]
  have f2: "fits (room (file_sink oa)) (length (concat (map block ?bs)))"
    and o2: "?o2 = oa\<lparr>file_sink := sink_add (file_sink oa) (concat (map block ?bs))\<rparr>"
    by simp_all
  from flush_last_alive [OF w a5]
  have f5: "fits (room (file_sink ?o2)) (cur_m ?o2)" and ok: "flush_ok (file_sink ?o2)"
    and o5: "flush_last env ?o2 =
      ?o2\<lparr>file_sink := sink_add (file_sink ?o2)
                            (map (buffers_m ?o2 ! buf_m ?o2) [0..<cur_m ?o2])\<rparr>"
    by simp_all
  let ?t = "map (buffers_m out ! buf_m out) [0..<cur_m out]"
  have p: "pending out = concat (map block ?bs) @ ?t"
    by (simp add: pending_def)
  have fs2: "file_sink ?o2 = sink_add (file_sink out) (concat (map block ?bs))"
    by (subst o2) (simp add: k)
  have "fits (room (file_sink out)) (length (pending out))"
    unfolding p using f2 f5 k fs2 flush_buffers_keeps [of env oa ?bs]
    by (subst fits_append) simp
  moreover have "flush_ok (file_sink out)"
    using ok fs2 by (simp add: sink_add_def)
  moreover have "file_sink o1 = sink_add (file_sink out) (pending out)"
    unfolding o1 p using o5 fs2 k flush_buffers_keeps [of env oa ?bs]
    by (simp add: sink_add_append)
  ultimately show ?thesis by blast
qed

subsection \<open>Flushing at EOF and after a failure\<close>

lemma output_ops_eof:
  "eof out \<Longrightarrow> \<exists>out'. output_ops env out es = Some out' \<and> untouched out out'"
proof (induction es arbitrary: out)
  case Nil
  show ?case by (simp add: untouched_refl)
next
  case (Cons e es)
  have "\<exists>o1. emit env out e = Some o1 \<and> untouched out o1"
  proof (cases "e = Flush")
    case True
    with Cons.prems show ?thesis by (simp add: flush_eof untouched_def)
  next
    case False
    with Cons.prems show ?thesis by (intro emit_quiet) (simp_all add: quiet_def)
  qed
  then obtain o1 where o1: "emit env out e = Some o1" "untouched out o1" by blast
  then have "eof o1" using Cons.prems by (simp add: untouched_def)
  from Cons.IH [OF this] obtain o2 where
    "output_ops env o1 es = Some o2" "untouched o1 o2" by blast
  with o1 show ?case by (auto intro: untouched_trans)
qed

lemma pending_reset: "pending (out\<lparr>buf_m := 0, cur_m := 0\<rparr>) = []"
  by (simp add: pending_def)

text \<open>
  Claim C10. \<^verbatim>\<open>cancel()\<close> sets the EOF flag. Once it is set, \<^verbatim>\<open>flush()\<close> returns without
  touching the sink and with the cursor at the start of the first buffer; and after any
  further emit and flush operations \<open>es\<close> the next \<^verbatim>\<open>flush()\<close> again only resets the
  cursor: the sink is as it was when the flag was set, and nothing is left pending.
\<close>

theorem flush_at_eof_discards:
  assumes "eof out"
  shows "eof (Output_cancel env out0)
       \<and> flush env out = Some (out\<lparr>buf_m := 0, cur_m := 0\<rparr>)
       \<and> (\<exists>o1. output_ops env out es = Some o1 \<and> eof o1
               \<and> flush env o1 = Some (o1\<lparr>buf_m := 0, cur_m := 0\<rparr>)
               \<and> file_sink (o1\<lparr>buf_m := 0, cur_m := 0\<rparr>) = file_sink out
               \<and> pending (o1\<lparr>buf_m := 0, cur_m := 0\<rparr>) = [])"
proof -
  from output_ops_eof [OF assms] obtain o1 where
    o1: "output_ops env out es = Some o1" "untouched out o1" by blast
  then have e1: "eof o1" using assms by (simp add: untouched_def)
  have "file_sink (o1\<lparr>buf_m := 0, cur_m := 0\<rparr>) = file_sink out"
    using o1(2) by (simp add: untouched_def)
  with o1(1) e1 flush_eof [OF e1] flush_eof [OF assms] show ?thesis
    by (simp add: pending_reset Output_cancel_def)
qed

text \<open>
  On the Output whose flush failed, \<^verbatim>\<open>chr('b')\<close> and \<^verbatim>\<open>str("cd")\<close> leave \<open>bcd\<close> pending;
  the flush drops them and the sink has received nothing.
\<close>

theorem flush_at_eof_discards_witness:
  "eof failed_output
   \<and> (\<exists>o1. output_ops plain_env failed_output [Chr (CHR ''b''), Str ''cd''] = Some o1
          \<and> pending o1 = ''bcd''
          \<and> flush plain_env o1 = Some (o1\<lparr>buf_m := 0, cur_m := 0\<rparr>)
          \<and> pending (o1\<lparr>buf_m := 0, cur_m := 0\<rparr>) = []
          \<and> written (file_sink (o1\<lparr>buf_m := 0, cur_m := 0\<rparr>)) = [])"
proof -
  have e: "eof failed_output"
    by (simp add: failed_output_def)
  let ?b = "memcpy ((buffer_with (CHR ''a''))(0 := CHR ''b'')) (Suc 0) ''cd''"
  let ?o1 = "failed_output\<lparr>buffers_m := [?b], cur_m := 3\<rparr>"
  have c: "chr plain_env failed_output (CHR ''b'') =
      Some (failed_output\<lparr>buffers_m := [(buffer_with (CHR ''a''))(0 := CHR ''b'')],
                           cur_m := Suc 0\<rparr>)"
    by (simp add: chr_def failed_output_def unflushed_output_def SIZE_def)
  have s: "str plain_env
      (failed_output\<lparr>buffers_m := [(buffer_with (CHR ''a''))(0 := CHR ''b'')],
                      cur_m := Suc 0\<rparr>) ''cd''
      = Some ?o1"
    by (subst str.simps)
       (simp add: failed_output_def unflushed_output_def SIZE_def copy_in_def)
  have ops: "output_ops plain_env failed_output [Chr (CHR ''b''), Str ''cd''] = Some ?o1"
    by (simp add: c s)
  have p: "pending ?o1 = ''bcd''"
    by code_simp
  from flush_at_eof_discards [OF e, of plain_env failed_output "[Chr (CHR ''b''), Str ''cd'']"]
  have "flush plain_env ?o1 = Some (?o1\<lparr>buf_m := 0, cur_m := 0\<rparr>)
        \<and> file_sink (?o1\<lparr>buf_m := 0, cur_m := 0\<rparr>) = file_sink failed_output
        \<and> pending (?o1\<lparr>buf_m := 0, cur_m := 0\<rparr>) = []"
    unfolding ops by simp
  moreover have "written (file_sink failed_output) = []"
    by (simp add: failed_output_def unflushed_output_def closed_sink_def)
  ultimately show ?thesis
    using e ops p by (intro conjI exI [of _ ?o1]) simp_all
qed

lemma pending_empty: "buf_m out = 0 \<Longrightarrow> cur_m out = 0 \<Longrightarrow> pending out = []"
  by (simp add: pending_def)

lemma fits_0: "fits r 0"
  by (simp add: fits_def split: option.splits)

subsection \<open>Holding and launching\<close>

lemma flush_fits:
  assumes w: "flag_width env = 0" and e: "\<not> eof out"
    and f: "fits (room (file_sink out)) (length (pending out))"
    and ok: "flush_ok (file_sink out)"
    and acq: "Output_acquire env out = Some oa"
  shows "\<exists>o1. flush env out = Some o1
            \<and> file_sink o1 = sink_add (file_sink out) (pending out)
            \<and> \<not> eof o1 \<and> buf_m o1 = 0 \<and> cur_m o1 = 0
            \<and> buffers_m o1 = buffers_m out \<and> mode_m o1 = mode_m out
            \<and> lock_m o1 = lock_m out \<and> slot_m o1 = slot_m out
            \<and> (sync o1 = sync out \<or> sync o1 = sync oa)"
proof (cases "buf_m out \<noteq> 0 \<or> cur_m out > 0")
  case False
  then have "flush env out = Some out" "pending out = []"
    by (simp_all add: flush_def pending_empty)
  with e False show ?thesis
    by (simp add: sink_add_Nil)
next
  case True
  note k = Output_acquire_keeps [OF acq]
  let ?bs = "take (buf_m out) (buffers_m out)"
  let ?t = "map (buffers_m out ! buf_m out) [0..<cur_m out]"
  have p: "pending out = concat (map block ?bs) @ ?t"
    by (simp add: pending_def)
  have f1: "fits (room (file_sink oa)) (length (concat (map block ?bs)))"
    and f2: "fits (room (sink_add (file_sink oa) (concat (map block ?bs)))) (length ?t)"
    using f fits_append [of "file_sink out" "concat (map block ?bs)" ?t] k
    unfolding p by simp_all
  let ?o2 = "oa\<lparr>file_sink := sink_add (file_sink oa) (concat (map block ?bs))\<rparr>"
  have o2: "flush_buffers env oa ?bs = ?o2"
    using w f1 by (rule flush_buffers_fits)
  have "flush_last env ?o2 =
      ?o2\<lparr>file_sink := sink_add (file_sink ?o2)
                            (map (buffers_m ?o2 ! buf_m ?o2) [0..<cur_m ?o2])\<rparr>"
    using w e k f2 ok by (intro flush_last_fits) (simp_all add: sink_add_def)
  then have o5: "flush_last env ?o2 = oa\<lparr>file_sink := sink_add (file_sink out) (pending out)\<rparr>"
    by (simp add: k p sink_add_append)
  have "flush env out =
      Some ((oa\<lparr>file_sink := sink_add (file_sink out) (pending out)\<rparr>)\<lparr>buf_m := 0, cur_m := 0\<rparr>)"
    using True e acq k o2 o5 by (simp add: flush_def Let_def)
  moreover have "lock_m oa = lock_m out \<and> slot_m oa = slot_m out"
    using acq by (auto simp: Output_acquire_def split: option.splits call_result.splits)
  ultimately show ?thesis
    using e k by simp
qed

lemma holding_quiet: "holding out \<Longrightarrow> quiet out"
  by (simp add: holding_def quiet_def)

lemma output_ops_hold:
  "holding out \<Longrightarrow> Flush \<notin> set es \<Longrightarrow>
   \<exists>out'. output_ops env out es = Some out' \<and> untouched out out'"
proof (induction es arbitrary: out)
  case Nil
  show ?case by (simp add: untouched_refl)
next
  case (Cons e es)
  then have "e \<noteq> Flush" by auto
  with Cons.prems(1) obtain o1 where o1: "emit env out e = Some o1" "untouched out o1"
    using emit_quiet holding_quiet by blast
  then have "holding o1" using Cons.prems(1) by (simp add: untouched_def holding_def)
  moreover have "Flush \<notin> set es" using Cons.prems(2) by simp
  ultimately obtain o2 where "output_ops env o1 es = Some o2" "untouched o1 o2"
    using Cons.IH by blast
  with o1 show ?case by (auto intro: untouched_trans)
qed

lemma next_buffer_hold:
  assumes "holding out"
  shows "next_buffer env out =
           Some (if Suc (buf_m out) = length (buffers_m out) then grow out
                 else out\<lparr>buf_m := Suc (buf_m out), cur_m := 0\<rparr>)"
  using assms by (simp add: next_buffer_def holding_def)

lemma block_eq: "map b [0..<SIZE] = block b"
  by (simp add: block_def)

lemma blocks_Suc:
  assumes "n < length bs"
  shows "concat (map block (take (Suc n) (bs @ xs))) =
           concat (map block (take n bs)) @ block (bs ! n)"
proof -
  have "take (Suc n) (bs @ xs) = take n bs @ [bs ! n]"
    using assms by (simp add: take_Suc_conv_app_nth)
  then show ?thesis by simp
qed

lemma pending_advance:
  assumes "buf_m out < length (buffers_m out)" and "cur_m out = SIZE"
    and "buffers_m out' = buffers_m out @ xs" and "buf_m out' = Suc (buf_m out)"
    and "cur_m out' = 0"
  shows "pending out' = pending out"
  using assms blocks_Suc [of "buf_m out" "buffers_m out" xs]
  by (simp add: pending_def block_eq)

lemma next_buffer_hold_chain:
  assumes h: "holding out"
  shows "\<exists>out'. next_buffer env out = Some out' \<and> file_sink out' = file_sink out
            \<and> buf_m out' = Suc (buf_m out) \<and> cur_m out' = 0
            \<and> take (length (buffers_m out)) (buffers_m out') = buffers_m out
            \<and> (chain_ok out \<and> cur_m out = SIZE \<longrightarrow> chain_ok out' \<and> pending out' = pending out)"
proof (cases "Suc (buf_m out) = length (buffers_m out)")
  case True
  then have nb: "next_buffer env out = Some (grow out)"
    using h by (simp add: next_buffer_hold)
  have "chain_ok out \<and> cur_m out = SIZE \<longrightarrow> pending (grow out) = pending out"
    using True
    by (auto simp: chain_ok_def grow_def
        intro!: pending_advance [where xs = "[\<lambda>_. CHR 0x00]"])
  with nb True show ?thesis
    by (auto simp: grow_def chain_ok_def)
next
  case False
  let ?o = "out\<lparr>buf_m := Suc (buf_m out), cur_m := 0\<rparr>"
  have nb: "next_buffer env out = Some ?o"
    using h False by (simp add: next_buffer_hold)
  have "chain_ok out \<and> cur_m out = SIZE \<longrightarrow> pending ?o = pending out"
    by (auto simp: chain_ok_def intro!: pending_advance [where xs = "[]"])
  with nb False show ?thesis
    by (auto simp: chain_ok_def)
qed

lemma clear_hold: "(m AND NOT HOLD) AND HOLD = (0::int)"
  by (simp add: and.assoc)

lemma pending_mode: "pending (out\<lparr>mode_m := m\<rparr>) = pending out"
  by (simp add: pending_def)

text \<open>
  Claim C4 says that \<^verbatim>\<open>launch()\<close> on a held Output with buffered data flushes that data.
  \<^verbatim>\<open>launch()\<close> clears HOLD and calls \<^verbatim>\<open>check_flush()\<close>, which flushes only when the mode
  is exactly FLUSH. The held Output below has one byte pending and mode HOLD alone:
  after \<^verbatim>\<open>launch()\<close> the sink is still empty and the byte is still pending.
\<close>

theorem launch_counterexample:
  "holding held_output \<and> pending held_output = ''a''
   \<and> launch plain_env held_output = Some (held_output\<lparr>mode_m := 0\<rparr>)
   \<and> written (file_sink (held_output\<lparr>mode_m := 0\<rparr>)) = []
   \<and> pending (held_output\<lparr>mode_m := 0\<rparr>) = ''a''"
proof -
  have "holding held_output"
    by (simp add: holding_def held_output_def HOLD_def)
  moreover have "pending held_output = ''a''"
    by code_simp
  moreover have "launch plain_env held_output = Some (held_output\<lparr>mode_m := 0\<rparr>)"
    by (simp add: launch_def check_flush_def held_output_def HOLD_def FLUSH_def)
  moreover have "written (file_sink (held_output\<lparr>mode_m := 0\<rparr>)) = []"
    by (simp add: held_output_def open_sink_def)
  moreover have "pending (held_output\<lparr>mode_m := 0\<rparr>) = ''a''"
    by code_simp
  ultimately show ?thesis by simp
qed

text \<open>
  Claim C4, amended. While HOLD is set: no sequence of emit operations and newlines
  reaches the sink or clears HOLD; \<^verbatim>\<open>next()\<close>, called on buffer overrun, goes to the next
  buffer of the chain, appending one when the current buffer is the last, and keeps the
  buffers and what is pending. \<^verbatim>\<open>launch()\<close> clears HOLD; when the remaining mode is not
  exactly FLUSH it does nothing else, so the data stays in the chain; when it is exactly
  FLUSH it flushes, and with \<^verbatim>\<open>flag_width == 0\<close>, no EOF, a sink that accepts the
  pending bytes and an \<^verbatim>\<open>acquire()\<close> that returns, the pending bytes reach the sink.
\<close>

theorem hold_and_launch:
  assumes h: "holding out"
  shows "(\<forall>es. Flush \<notin> set es \<longrightarrow>
            (\<exists>out'. output_ops env out es = Some out' \<and> file_sink out' = file_sink out
                 \<and> holding out'))
       \<and> (\<exists>out'. next_buffer env out = Some out' \<and> file_sink out' = file_sink out
              \<and> buf_m out' = Suc (buf_m out) \<and> cur_m out' = 0
              \<and> take (length (buffers_m out)) (buffers_m out') = buffers_m out
              \<and> (chain_ok out \<and> cur_m out = SIZE \<longrightarrow>
                   chain_ok out' \<and> pending out' = pending out))
       \<and> (mode_m out AND NOT HOLD \<noteq> FLUSH \<longrightarrow>
            launch env out = Some (out\<lparr>mode_m := mode_m out AND NOT HOLD\<rparr>)
            \<and> \<not> holding (out\<lparr>mode_m := mode_m out AND NOT HOLD\<rparr>)
            \<and> pending (out\<lparr>mode_m := mode_m out AND NOT HOLD\<rparr>) = pending out)
       \<and> (mode_m out AND NOT HOLD = FLUSH \<and> flag_width env = 0 \<and> \<not> eof out
            \<and> fits (room (file_sink out)) (length (pending out)) \<and> flush_ok (file_sink out)
            \<and> Output_acquire env out \<noteq> None \<longrightarrow>
            (\<exists>out'. launch env out = Some out' \<and> \<not> holding out'
                 \<and> written (file_sink out') = written (file_sink out) @ pending out
                 \<and> pending out' = []))"
proof -
  have 1: "\<forall>es. Flush \<notin> set es \<longrightarrow>
            (\<exists>out'. output_ops env out es = Some out' \<and> file_sink out' = file_sink out
                 \<and> holding out')"
  proof (intro allI impI)
    fix es assume "Flush \<notin> set es"
    with h obtain out' where "output_ops env out es = Some out'" "untouched out out'"
      using output_ops_hold by blast
    with h show "\<exists>out'. output_ops env out es = Some out' \<and> file_sink out' = file_sink out
                 \<and> holding out'"
      by (auto simp: untouched_def holding_def)
  qed
  note 2 = next_buffer_hold_chain [OF h, of env]
  let ?o = "out\<lparr>mode_m := mode_m out AND NOT HOLD\<rparr>"
  have nh: "\<not> holding ?o"
    by (simp add: holding_def clear_hold)
  have 3: "mode_m out AND NOT HOLD \<noteq> FLUSH \<longrightarrow>
            launch env out = Some ?o \<and> \<not> holding ?o \<and> pending ?o = pending out"
    using h nh by (simp add: launch_def check_flush_def holding_def pending_def)
  have 4: "mode_m out AND NOT HOLD = FLUSH \<and> flag_width env = 0 \<and> \<not> eof out
            \<and> fits (room (file_sink out)) (length (pending out)) \<and> flush_ok (file_sink out)
            \<and> Output_acquire env out \<noteq> None \<longrightarrow>
            (\<exists>out'. launch env out = Some out' \<and> \<not> holding out'
                 \<and> written (file_sink out') = written (file_sink out) @ pending out
                 \<and> pending out' = [])"
  proof (intro impI)
    assume a: "mode_m out AND NOT HOLD = FLUSH \<and> flag_width env = 0 \<and> \<not> eof out
            \<and> fits (room (file_sink out)) (length (pending out)) \<and> flush_ok (file_sink out)
            \<and> Output_acquire env out \<noteq> None"
    then obtain oa where "Output_acquire env out = Some oa" by auto
    then have acq: "Output_acquire env ?o = Some (oa\<lparr>mode_m := mode_m out AND NOT HOLD\<rparr>)"
      by (auto simp: Output_acquire_def split: option.splits call_result.splits)
    have p: "pending ?o = pending out"
      by (simp add: pending_def)
    have "\<exists>o1. flush env ?o = Some o1
            \<and> file_sink o1 = sink_add (file_sink ?o) (pending ?o)
            \<and> \<not> eof o1 \<and> buf_m o1 = 0 \<and> cur_m o1 = 0
            \<and> buffers_m o1 = buffers_m ?o \<and> mode_m o1 = mode_m ?o
            \<and> lock_m o1 = lock_m ?o \<and> slot_m o1 = slot_m ?o
            \<and> (sync o1 = sync ?o \<or> sync o1 = sync (oa\<lparr>mode_m := mode_m out AND NOT HOLD\<rparr>))"
      using a acq by (intro flush_fits) (simp_all add: pending_mode)
    then obtain o1 where o1: "flush env ?o = Some o1"
        "file_sink o1 = sink_add (file_sink out) (pending out)"
        "buf_m o1 = 0" "cur_m o1 = 0" "mode_m o1 = mode_m out AND NOT HOLD"
      by (auto simp: pending_mode)
    have "launch env out = Some o1"
      using h a o1(1) by (simp add: launch_def check_flush_def holding_def)
    moreover have "\<not> holding o1"
      using o1(5) by (simp add: holding_def clear_hold)
    moreover have "written (file_sink o1) = written (file_sink out) @ pending out"
      using o1(2) by (simp add: sink_add_def)
    moreover have "pending o1 = []"
      using o1(3,4) by (simp add: pending_empty)
    ultimately show "\<exists>out'. launch env out = Some out' \<and> \<not> holding out'
                 \<and> written (file_sink out') = written (file_sink out) @ pending out
                 \<and> pending out' = []"
      by blast
  qed
  from 1 2 3 4 show ?thesis by blast
qed

text \<open>
  On the held Output with \<open>a\<close> pending: \<^verbatim>\<open>chr('b')\<close> and a newline leave the sink empty;
  with mode HOLD alone \<^verbatim>\<open>launch()\<close> only clears the bit; with mode FLUSH | HOLD it writes
  \<open>a\<close> to the sink.
\<close>

theorem hold_and_launch_witness:
  "holding held_output \<and> Flush \<notin> set [Chr (CHR ''b''), Nl False]
   \<and> (\<exists>out'. output_ops plain_env held_output [Chr (CHR ''b''), Nl False] = Some out'
          \<and> file_sink out' = open_sink \<and> holding out')
   \<and> mode_m held_output AND NOT HOLD \<noteq> FLUSH
   \<and> launch plain_env held_output = Some (held_output\<lparr>mode_m := 0\<rparr>)
   \<and> holding (held_output\<lparr>mode_m := FLUSH OR HOLD\<rparr>)
   \<and> (\<exists>out'. launch plain_env (held_output\<lparr>mode_m := FLUSH OR HOLD\<rparr>) = Some out'
          \<and> \<not> holding out' \<and> written (file_sink out') = ''a'' \<and> pending out' = [])"
proof -
  have h: "holding held_output"
    by (simp add: holding_def held_output_def HOLD_def)
  have nf: "Flush \<notin> set [Chr (CHR ''b''), Nl False]"
    by simp
  have f: "file_sink held_output = open_sink"
    by (simp add: held_output_def)
  have m: "mode_m held_output AND NOT HOLD = 0"
    by (simp add: held_output_def)
  have m': "mode_m held_output AND NOT HOLD \<noteq> FLUSH"
    by (simp add: m FLUSH_def)
  note t = hold_and_launch [OF h, of plain_env]
  from t nf have a: "\<exists>out'. output_ops plain_env held_output [Chr (CHR ''b''), Nl False] = Some out'
          \<and> file_sink out' = open_sink \<and> holding out'"
    unfolding f by blast
  from t m' have b: "launch plain_env held_output = Some (held_output\<lparr>mode_m := 0\<rparr>)"
    unfolding m by blast
  let ?o = "held_output\<lparr>mode_m := FLUSH OR HOLD\<rparr>"
  have h2: "holding ?o"
    by (simp add: holding_def HOLD_def FLUSH_def)
  have p: "pending ?o = ''a''"
    by code_simp
  have pre: "mode_m ?o AND NOT HOLD = FLUSH \<and> flag_width plain_env = 0 \<and> \<not> eof ?o
            \<and> fits (room (file_sink ?o)) (length (pending ?o)) \<and> flush_ok (file_sink ?o)
            \<and> Output_acquire plain_env ?o \<noteq> None"
    by (simp add: HOLD_def FLUSH_def plain_env_def held_output_def open_sink_def fits_def
        Output_acquire_def)
  from hold_and_launch [OF h2, of plain_env] pre
  have "\<exists>out'. launch plain_env ?o = Some out' \<and> \<not> holding out'
                 \<and> written (file_sink out') = written (file_sink ?o) @ pending ?o
                 \<and> pending out' = []"
    by blast
  moreover have "written (file_sink ?o) = []"
    by (simp add: held_output_def open_sink_def)
  ultimately have c: "\<exists>out'. launch plain_env ?o = Some out' \<and> \<not> holding out'
                 \<and> written (file_sink out') = ''a'' \<and> pending out' = []"
    by (simp only: p append_Nil)
  from h nf a m' b h2 c show ?thesis by blast
qed

subsection \<open>The emitted stream and URI quoting\<close>

lemma try_acquire_owns: "try_acquire s lk = (True, s') \<Longrightarrow> owns_lock s' lk"
  by (cases "mode s") (auto simp: try_acquire_def owns_lock_def split: if_splits)

lemma acquire_owned: "owns_lock s lk \<Longrightarrow> acquire STOP s lk slot = Returns s"
  by (cases "mode s") (simp_all add: acquire_def)

lemma lossless_fits: "lossless env out \<Longrightarrow> fits (room (file_sink out)) n"
  by (simp add: lossless_def fits_def)

lemma stream_flushed:
  assumes l: "lossless env out" and acq: "Output_acquire env out = Some oa"
  shows "\<exists>out'. flush env out = Some out' \<and> stream out' = stream out \<and> lossless env out'
            \<and> cur_m out' = 0 \<and> mode_m out' = mode_m out"
proof -
  from l have w: "flag_width env = 0" and e: "\<not> eof out" and ok: "flush_ok (file_sink out)"
    and r: "room (file_sink out) = None" and c: "chain_ok out"
    by (simp_all add: lossless_def)
  from flush_fits [OF w e lossless_fits [OF l] ok acq] obtain o1 where
    o1: "flush env out = Some o1" "file_sink o1 = sink_add (file_sink out) (pending out)"
      "\<not> eof o1" "buf_m o1 = 0" "cur_m o1 = 0" "buffers_m o1 = buffers_m out"
      "mode_m o1 = mode_m out"
    by blast
  have "pending o1 = []"
    using o1(4,5) by (simp add: pending_empty)
  then have "stream o1 = stream out"
    using o1(2) by (simp add: stream_def sink_add_def)
  moreover have "lossless env o1"
    using w o1 r ok c by (auto simp: lossless_def sink_add_def chain_ok_def)
  ultimately show ?thesis
    using o1 by blast
qed

lemma next_buffer_stream:
  assumes l: "lossless env out" and full: "cur_m out = SIZE"
  shows "\<exists>out'. next_buffer env out = Some out' \<and> stream out' = stream out
            \<and> lossless env out' \<and> cur_m out' = 0 \<and> mode_m out' = mode_m out"
proof -
  from l have c: "chain_ok out" by (simp add: lossless_def)
  have advance: ?thesis
    if nb: "next_buffer env out =
              Some (if Suc (buf_m out) = length (buffers_m out) then grow out
                    else out\<lparr>buf_m := Suc (buf_m out), cur_m := 0\<rparr>)"
  proof (cases "Suc (buf_m out) = length (buffers_m out)")
    case True
    have "pending (grow out) = pending out"
      using c full True
      by (auto simp: chain_ok_def grow_def
          intro!: pending_advance [where xs = "[\<lambda>_. CHR 0x00]"])
    then have "stream (grow out) = stream out"
      by (simp add: stream_def grow_def)
    moreover have "lossless env (grow out)"
      using l True by (auto simp: lossless_def grow_def chain_ok_def)
    ultimately show ?thesis
      using nb True by (simp add: grow_def)
  next
    case False
    let ?o = "out\<lparr>buf_m := Suc (buf_m out), cur_m := 0\<rparr>"
    have "pending ?o = pending out"
      using c full by (auto simp: chain_ok_def intro!: pending_advance [where xs = "[]"])
    then have "stream ?o = stream out"
      by (simp add: stream_def)
    moreover have "lossless env ?o"
      using l False by (auto simp: lossless_def chain_ok_def)
    ultimately show ?thesis
      using nb False by simp
  qed
  show ?thesis
  proof (cases "mode_m out AND HOLD = 0")
    case False
    then show ?thesis
      by (intro advance) (simp add: next_buffer_def)
  next
    case nh: True
    show ?thesis
    proof (cases "sync out")
      case None
      then have "next_buffer env out = flush env out"
        using nh by (simp add: next_buffer_def)
      moreover have "Output_acquire env out = Some out"
        using None by (simp add: Output_acquire_def)
      ultimately show ?thesis
        using stream_flushed [OF l] by simp
    next
      case (Some s)
      obtain ok s' where t: "try_acquire s (lock_m out) = (ok, s')"
        by (cases "try_acquire s (lock_m out)")
      show ?thesis
      proof (cases ok)
        case False
        have "s' = s"
          using t False by (cases "mode s") (auto simp: try_acquire_def split: if_splits)
        then have "out\<lparr>sync := Some s'\<rparr> = out"
          using Some by simp
        then show ?thesis
          using nh Some t False by (intro advance) (simp add: next_buffer_def)
      next
        case True
        let ?o = "out\<lparr>sync := Some s'\<rparr>"
        have nb: "next_buffer env out = flush env ?o"
          using nh Some t True by (simp add: next_buffer_def)
        have "owns_lock s' (lock_m out)"
          using t True try_acquire_owns by simp
        then have acq: "Output_acquire env ?o = Some ?o"
          by (simp add: Output_acquire_def acquire_owned)
        have l': "lossless env ?o"
          using l by (simp add: lossless_def chain_ok_def)
        have "stream ?o = stream out"
          by (simp add: stream_def pending_def)
        with stream_flushed [OF l' acq] nb show ?thesis
          by simp
      qed
    qed
  qed
qed

lemma chr_stream:
  assumes l: "lossless env out"
  shows "\<exists>out'. chr env out c = Some out' \<and> stream out' = stream out @ [c]
            \<and> lossless env out' \<and> mode_m out' = mode_m out"
proof -
  have store: "stream (o1\<lparr>buffers_m := (buffers_m o1)
                         [buf_m o1 := (buffers_m o1 ! buf_m o1)(cur_m o1 := c)],
                     cur_m := Suc (cur_m o1)\<rparr>) = stream o1 @ [c]
        \<and> lossless env (o1\<lparr>buffers_m := (buffers_m o1)
                         [buf_m o1 := (buffers_m o1 ! buf_m o1)(cur_m o1 := c)],
                     cur_m := Suc (cur_m o1)\<rparr>)"
    if "lossless env o1" and "cur_m o1 < SIZE" for o1
    using that by (auto simp: stream_def pending_def lossless_def chain_ok_def)
  show ?thesis
  proof (cases "cur_m out \<ge> SIZE")
    case False
    with store [OF l] show ?thesis
      by (simp add: chr_def)
  next
    case True
    with l have "cur_m out = SIZE"
      by (simp add: lossless_def chain_ok_def)
    from next_buffer_stream [OF l this] obtain o1 where
      o1: "next_buffer env out = Some o1" "stream o1 = stream out" "lossless env o1"
        "cur_m o1 = 0" "mode_m o1 = mode_m out"
      by blast
    have "cur_m o1 < SIZE"
      using o1(4) by (simp add: SIZE_def)
    from store [OF o1(3) this] o1 True show ?thesis
      by (simp add: chr_def)
  qed
qed

lemma memcpy_map:
  "map (memcpy b off d) [0..<off + length d] = map b [0..<off] @ d"
proof (rule nth_equalityI)
  show "length (map (memcpy b off d) [0..<off + length d]) = length (map b [0..<off] @ d)"
    by simp
next
  fix i assume "i < length (map (memcpy b off d) [0..<off + length d])"
  then have i: "i < off + length d" by simp
  show "map (memcpy b off d) [0..<off + length d] ! i = (map b [0..<off] @ d) ! i"
  proof (cases "i < off")
    case True
    then show ?thesis using i by (simp add: memcpy_def nth_append)
  next
    case False
    then show ?thesis using i by (simp add: memcpy_def nth_append)
  qed
qed

lemma copy_in_stream:
  assumes l: "lossless env out" and room: "cur_m out + length d \<le> SIZE"
  shows "stream (copy_in out d) = stream out @ d \<and> lossless env (copy_in out d)
       \<and> cur_m (copy_in out d) = cur_m out + length d
       \<and> mode_m (copy_in out d) = mode_m out"
  using assms
  by (auto simp: stream_def pending_def copy_in_def lossless_def chain_ok_def memcpy_map)

lemma str_stream:
  "lossless env out \<Longrightarrow>
   \<exists>out'. str env out s = Some out' \<and> stream out' = stream out @ s \<and> lossless env out'
        \<and> mode_m out' = mode_m out"
proof (induction env out s rule: str.induct)
  case (1 env out s)
  show ?case
  proof (cases "cur_m out + length s \<ge> SIZE")
    case False
    then have "str env out s = Some (copy_in out s)"
      by (subst str.simps) simp
    with copy_in_stream [OF "1.prems", of s] False show ?thesis
      by simp
  next
    case True
    let ?k = "SIZE - cur_m out"
    have c: "cur_m out \<le> SIZE"
      using "1.prems" by (simp add: lossless_def chain_ok_def)
    then have kl: "?k \<le> length s"
      using True by simp
    have "cur_m out + length (take ?k s) \<le> SIZE"
      using c kl by simp
    from copy_in_stream [OF "1.prems" this]
    have ci: "stream (copy_in out (take ?k s)) = stream out @ take ?k s"
      "lossless env (copy_in out (take ?k s))" "cur_m (copy_in out (take ?k s)) = SIZE"
      "mode_m (copy_in out (take ?k s)) = mode_m out"
      using c kl by simp_all
    from next_buffer_stream [OF ci(2,3)] obtain o1 where
      o1: "next_buffer env (copy_in out (take ?k s)) = Some o1"
        "stream o1 = stream (copy_in out (take ?k s))" "lossless env o1"
        "mode_m o1 = mode_m (copy_in out (take ?k s))"
      by blast
    from "1.IH" [OF True refl o1(1,3)] obtain o2 where
      o2: "str env o1 (drop ?k s) = Some o2" "stream o2 = stream o1 @ drop ?k s"
        "lossless env o2" "mode_m o2 = mode_m o1"
      by blast
    have "str env out s = Some o2"
      using True o1(1) o2(1) by (subst str.simps) (simp add: Let_def)
    moreover have "stream o2 = stream out @ s"
      using o2(2) o1(2) ci(1) by simp
    ultimately show ?thesis
      using o2(3,4) o1(4) ci(4) by simp
  qed
qed

lemma pad_stream:
  "lossless env out \<Longrightarrow>
   \<exists>out'. pad env out c w n = Some out' \<and> stream out' = stream out @ replicate (w - n) c
        \<and> lossless env out' \<and> mode_m out' = mode_m out"
proof (induction env out c w n rule: pad.induct)
  case (1 env out c w n)
  show ?case
  proof (cases "w > n")
    case False
    then show ?thesis
      using "1.prems" by (subst pad.simps) simp
  next
    case True
    from chr_stream [OF "1.prems"] obtain o1 where
      o1: "chr env out c = Some o1" "stream o1 = stream out @ [c]" "lossless env o1"
        "mode_m o1 = mode_m out"
      by blast
    from "1.IH" [OF True o1(1,3)] obtain o2 where
      o2: "pad env o1 c (w - 1) n = Some o2"
        "stream o2 = stream o1 @ replicate (w - 1 - n) c" "lossless env o2"
        "mode_m o2 = mode_m o1"
      by blast
    have "replicate (w - n) c = c # replicate (w - 1 - n) c"
      using True by (cases "w - n") simp_all
    then have "stream o2 = stream out @ replicate (w - n) c"
      using o2(2) o1(2) by simp
    moreover have "pad env out c w n = Some o2"
      using True o1(1) o2(1) by (subst pad.simps) simp
    ultimately show ?thesis
      using o2(3,4) o1(4) by simp
  qed
qed

lemma hex_stream:
  assumes "lossless env out"
  shows "\<exists>out'. hex env out i w = Some out'
            \<and> stream out' = stream out @ replicate (w - length (hex_digits i [])) (CHR ''0'')
                               @ hex_digits i []
            \<and> lossless env out' \<and> mode_m out' = mode_m out"
proof -
  from pad_stream [OF assms] obtain o1 where
    o1: "pad env out (CHR ''0'') w (length (hex_digits i [])) = Some o1"
      "stream o1 = stream out @ replicate (w - length (hex_digits i [])) (CHR ''0'')"
      "lossless env o1" "mode_m o1 = mode_m out"
    by blast
  from str_stream [OF o1(3)] obtain o2 where
    "str env o1 (hex_digits i []) = Some o2" "stream o2 = stream o1 @ hex_digits i []"
    "lossless env o2" "mode_m o2 = mode_m o1"
    by blast
  with o1 show ?thesis
    by (simp add: hex_def Let_def)
qed

lemma and_15_nat: "(v::nat) AND 0xf = v mod 16"
proof -
  have "(15::nat) = mask 4" by (simp add: mask_eq_exp_minus_1)
  then show ?thesis by (simp only: flip: take_bit_eq_mask) (simp add: take_bit_eq_mod)
qed
lemma unat_and_15: "unat ((i::64 word) AND 0xf) = unat i mod 16"
  by (simp add: unsigned_and_eq and_15_nat)
lemma unat_drop_bit_4: "unat (drop_bit 4 (i::64 word)) = unat i div 16"
  by (simp add: drop_bit_eq_div unat_div)
lemma word_pos_unat: "((i::64 word) > 0) = (unat i > 0)"
  by (simp add: word_greater_zero_iff unat_gt_0)
lemma hex_digits_byte:
  assumes "v < 256"
  shows "hex_digits (of_nat v) [] =
           (if v < 16 then [hexdigit v] else [hexdigit (v div 16), hexdigit (v mod 16)])"
proof -
  let ?i = "of_nat v :: size_t"
  have u: "unat ?i = v" using assms by (simp add: unat_of_nat)
  have lo: "unat (?i AND 0xf) = v mod 16" by (simp add: unat_and_15 u)
  have hi: "unat (drop_bit 4 ?i) = v div 16" by (simp add: unat_drop_bit_4 u)
  show ?thesis
  proof (cases "v < 16")
    case True
    then have "\<not> drop_bit 4 ?i > 0" using hi by (simp add: word_pos_unat)
    then have "hex_digits ?i [] = [''0123456789abcdef'' ! unat (?i AND 0xf)]"
      by (subst hex_digits.simps) (simp add: Let_def)
    with True lo show ?thesis by (simp add: hexdigit_def)
  next
    case False
    let ?j = "drop_bit 4 ?i"
    have "?j > 0" using hi False by (simp add: word_pos_unat)
    then have 1: "hex_digits ?i [] = hex_digits ?j [''0123456789abcdef'' ! unat (?i AND 0xf)]"
      by (subst hex_digits.simps) (simp add: Let_def)
    have j16: "unat ?j < 16" unfolding hi using assms by simp
    have "unat (drop_bit 4 ?j) = unat ?j div 16" by (rule unat_drop_bit_4)
    also have "\<dots> = 0" using j16 by (rule div_less)
    finally have "unat (drop_bit 4 ?j) = 0" .
    then have "\<not> drop_bit 4 ?j > 0" by (simp add: word_pos_unat)
    then have 2: "hex_digits ?j [''0123456789abcdef'' ! unat (?i AND 0xf)] =
        [''0123456789abcdef'' ! unat (?j AND 0xf), ''0123456789abcdef'' ! unat (?i AND 0xf)]"
      by (subst hex_digits.simps) (simp add: Let_def)
    have "unat (?j AND 0xf) = unat ?j mod 16" by (rule unat_and_15)
    also have "\<dots> = unat ?j" using j16 by (rule mod_less)
    finally have "unat (?j AND 0xf) = v div 16" by (simp only: hi)
    with 1 2 lo False show ?thesis by (simp add: hexdigit_def)
  qed
qed

lemma hex_byte_stream:
  assumes l: "lossless env out" and v: "v < 256"
  shows "\<exists>out'. hex env out (of_nat v) 2 = Some out'
            \<and> stream out' = stream out @ [hexdigit (v div 16), hexdigit (v mod 16)]
            \<and> lossless env out' \<and> mode_m out' = mode_m out"
proof -
  let ?ds = "hex_digits (of_nat v) []"
  have "replicate (2 - length ?ds) (CHR ''0'') @ ?ds = [hexdigit (v div 16), hexdigit (v mod 16)]"
  proof (cases "v < 16")
    case True
    then have "?ds = [hexdigit v]" using v by (simp add: hex_digits_byte)
    moreover have "hexdigit (v div 16) = CHR ''0''" using True by (simp add: hexdigit_def)
    ultimately show ?thesis using True by (simp add: numeral_2_eq_2)
  next
    case False
    then show ?thesis using v by (simp add: hex_digits_byte)
  qed
  with hex_stream [OF l, of "of_nat v" 2] show ?thesis by simp
qed

lemma uri_stream:
  "lossless env out \<Longrightarrow>
   \<exists>out'. uri env out s = Some out'
        \<and> stream out' = stream out @ concat (map uri_encoded (takeWhile (\<lambda>c. c \<noteq> CHR 0x00) s))
        \<and> lossless env out' \<and> mode_m out' = mode_m out"
proof (induction s arbitrary: out)
  case Nil
  then show ?case by simp
next
  case (Cons c s)
  show ?case
  proof (cases "c = CHR 0x00")
    case True
    with Cons.prems show ?thesis by simp
  next
    case nz: False
    show ?thesis
    proof (cases "(0x20::nat) \<le> of_char c \<and> (of_char c :: nat) \<le> 0x7e
              \<and> c \<noteq> CHR ''%'' \<and> c \<noteq> CHR '';''")
      case True
      from chr_stream [OF Cons.prems] obtain o1 where
        o1: "chr env out c = Some o1" "stream o1 = stream out @ [c]" "lossless env o1"
          "mode_m o1 = mode_m out"
        by blast
      from Cons.IH [OF o1(3)] obtain o2 where
        o2: "uri env o1 s = Some o2"
          "stream o2 = stream o1 @ concat (map uri_encoded (takeWhile (\<lambda>c. c \<noteq> CHR 0x00) s))"
          "lossless env o2" "mode_m o2 = mode_m o1"
        by blast
      have "uri env out (c # s) = Some o2"
        using nz True o1(1) o2(1) by simp
      moreover have "uri_encoded c = [c]"
        using True by (simp add: uri_encoded_def)
      ultimately show ?thesis
        using nz o1 o2 by simp
    next
      case False
      from chr_stream [OF Cons.prems] obtain o1 where
        o1: "chr env out (CHR ''%'') = Some o1" "stream o1 = stream out @ [CHR ''%'']"
          "lossless env o1" "mode_m o1 = mode_m out"
        by blast
      have "(of_char c :: nat) < 256" by (rule nat_of_char_less_256)
      from hex_byte_stream [OF o1(3) this] obtain o2 where
        o2: "hex env o1 (of_nat (of_char c)) 2 = Some o2"
          "stream o2 = stream o1 @ [hexdigit (of_char c div 16), hexdigit (of_char c mod 16)]"
          "lossless env o2" "mode_m o2 = mode_m o1"
        by blast
      from Cons.IH [OF o2(3)] obtain o3 where
        o3: "uri env o2 s = Some o3"
          "stream o3 = stream o2 @ concat (map uri_encoded (takeWhile (\<lambda>c. c \<noteq> CHR 0x00) s))"
          "lossless env o3" "mode_m o3 = mode_m o2"
        by blast
      have "uri env out (c # s) = Some o3"
        using nz False o1(1) o2(1) o3(1) by auto
      moreover have "uri_encoded c =
          [CHR ''%'', hexdigit (of_char c div 16), hexdigit (of_char c mod 16)]"
        using False by (auto simp: uri_encoded_def)
      ultimately show ?thesis
        using nz o1 o2 o3 by simp
    qed
  qed
qed

text \<open>
  Claim C9. On an Output that loses nothing, \<^verbatim>\<open>uri(s)\<close> returns, and what it has added
  to the emitted stream is, for each byte of \<open>s\<close> before the terminating NUL in turn,
  the byte itself when it lies in \<open>0x20..0x7E\<close> and is neither \<open>%\<close> nor \<open>;\<close>, and
  otherwise \<open>%\<close> followed by the two hexadecimal digits of its value.
\<close>

theorem uri_percent_encoding:
  assumes "lossless env out"
  shows "\<exists>out'. uri env out s = Some out'
           \<and> stream out' =
               stream out @ concat (map uri_encoded (takeWhile (\<lambda>c. c \<noteq> CHR 0x00) s))
           \<and> (\<forall>c. (0x20::nat) \<le> of_char c \<and> (of_char c :: nat) \<le> 0x7e
                    \<and> c \<noteq> CHR ''%'' \<and> c \<noteq> CHR '';'' \<longrightarrow> uri_encoded c = [c])
           \<and> (\<forall>c. \<not> ((0x20::nat) \<le> of_char c \<and> (of_char c :: nat) \<le> 0x7e
                       \<and> c \<noteq> CHR ''%'' \<and> c \<noteq> CHR '';'') \<longrightarrow>
                  uri_encoded c =
                    [CHR ''%'', ''0123456789abcdef'' ! (of_char c div 16),
                     ''0123456789abcdef'' ! (of_char c mod 16)])"
  using uri_stream [OF assms, of s]
  by (auto simp: uri_encoded_def hexdigit_def)

text \<open>
  On a fresh Output, \<^verbatim>\<open>uri("a b%;")\<close> followed by the bytes 0x0A and 0xE9 emits
  \<open>a b%25%3b%0a%e9\<close>.
\<close>

theorem uri_percent_encoding_witness:
  "lossless plain_env (Output_init plain_env open_sink)
   \<and> (\<exists>out'. uri plain_env (Output_init plain_env open_sink)
                 [CHR ''a'', CHR '' '', CHR ''b'', CHR ''%'', CHR '';'', CHR 0x0A, CHR 0xE9]
                = Some out'
          \<and> stream out' = ''a b%25%3b%0a%e9'')"
proof -
  have l: "lossless plain_env (Output_init plain_env open_sink)"
    by (simp add: lossless_def plain_env_def Output_init_def grow_def open_sink_def chain_ok_def)
  have s: "stream (Output_init plain_env open_sink) = []"
    by (simp add: stream_def pending_def plain_env_def Output_init_def grow_def open_sink_def)
  have enc: "concat (map uri_encoded (takeWhile (\<lambda>c. c \<noteq> CHR 0x00)
               [CHR ''a'', CHR '' '', CHR ''b'', CHR ''%'', CHR '';'', CHR 0x0A, CHR 0xE9]))
             = ''a b%25%3b%0a%e9''"
    by code_simp
  from uri_percent_encoding [OF l,
      of "[CHR ''a'', CHR '' '', CHR ''b'', CHR ''%'', CHR '';'', CHR 0x0A, CHR 0xE9]"]
  obtain out' where
    "uri plain_env (Output_init plain_env open_sink)
                 [CHR ''a'', CHR '' '', CHR ''b'', CHR ''%'', CHR '';'', CHR 0x0A, CHR 0xE9]
                = Some out'"
    "stream out' = stream (Output_init plain_env open_sink)
        @ concat (map uri_encoded (takeWhile (\<lambda>c. c \<noteq> CHR 0x00)
               [CHR ''a'', CHR '' '', CHR ''b'', CHR ''%'', CHR '';'', CHR 0x0A, CHR 0xE9]))"
    by blast
  then show ?thesis
    using l unfolding s enc by auto
qed

subsection \<open>UTF-8 aware truncation\<close>

lemma and_192:
  "(v::nat) AND 0xc0 = 64 * ((v div 64) mod 4)"
proof -
  let ?a = "v AND 0xc0"
  have d: "drop_bit 6 ?a = (v div 64) mod 4"
  proof -
    have "drop_bit 6 ?a = drop_bit 6 v AND drop_bit 6 (0xc0::nat)"
      by (simp only: drop_bit_and)
    also have "drop_bit 6 (0xc0::nat) = mask 2"
      by (simp add: drop_bit_eq_div mask_eq_exp_minus_1)
    finally show ?thesis
      by (simp add: drop_bit_eq_div flip: take_bit_eq_mask) (simp add: take_bit_eq_mod)
  qed
  have t: "take_bit 6 ?a = 0"
  proof -
    have "take_bit 6 ?a = take_bit 6 v AND take_bit 6 (0xc0::nat)"
      by (simp only: take_bit_and)
    also have "take_bit 6 (0xc0::nat) = 0"
      by (simp add: take_bit_eq_mod)
    finally show ?thesis by simp
  qed
  have "push_bit 6 (drop_bit 6 ?a) + take_bit 6 ?a = ?a"
    by (rule bits_ident)
  then show ?thesis
    unfolding d t by (simp add: push_bit_eq_mult)
qed

lemma continuation_range_nat:
  assumes "(v::nat) < 256"
  shows "(v AND 0xc0 = 0x80) = (0x80 \<le> v \<and> v < 0xC0)"
proof -
  have "v div 64 < 4" using assms by simp
  then have "(v div 64) mod 4 = v div 64" by simp
  then have "v AND 0xc0 = 64 * (v div 64)" by (simp add: and_192)
  then show ?thesis by auto
qed

lemma is_continuation_range:
  "is_continuation c \<longleftrightarrow> (0x80::nat) \<le> of_char c \<and> (of_char c :: nat) < 0xC0"
  unfolding is_continuation_def
  by (rule continuation_range_nat) (rule nat_of_char_less_256)

lemma lead_not_continuation: "0 < utf8_seq_len c \<Longrightarrow> \<not> is_continuation c"
  by (auto simp: is_continuation_range utf8_seq_len_def Let_def split: if_splits)

lemma utf8_cont_run:
  "i + 1 + r \<le> length s \<Longrightarrow>
   utf8_cont s i r =
     (i + 1 + length (takeWhile is_continuation (take r (drop (Suc i) s))),
      r - length (takeWhile is_continuation (take r (drop (Suc i) s))))"
proof (induction s i r rule: utf8_cont.induct)
  case (1 s i n)
  show ?case
  proof (cases "n > 0")
    case False
    then show ?thesis by (subst utf8_cont.simps) simp
  next
    case True
    then have lt: "Suc i < length s" using "1.prems" by simp
    have t: "take n (drop (Suc i) s) = s ! Suc i # take (n - 1) (drop (Suc (Suc i)) s)"
      using True lt by (cases n) (simp_all add: Cons_nth_drop_Suc [symmetric])
    show ?thesis
    proof (cases "is_continuation (s ! Suc i)")
      case False
      then show ?thesis by (subst utf8_cont.simps) (simp add: t)
    next
      case c: True
      have "Suc i + 1 + (n - 1) \<le> length s" using True "1.prems" by simp
      from "1.IH" [OF refl _ this] c True
      have "utf8_cont s (Suc i) (n - 1) =
        (Suc i + 1 + length (takeWhile is_continuation (take (n - 1) (drop (Suc (Suc i)) s))),
         n - 1 - length (takeWhile is_continuation (take (n - 1) (drop (Suc (Suc i)) s))))"
        by simp
      then show ?thesis
        using c True by (subst utf8_cont.simps) (simp add: t)
    qed
  qed
qed

lemma utf8_span_prefix:
  "i + n \<le> length s \<Longrightarrow>
   utf8_span s i n k = i + utf8_prefix_len k (take n (drop i s))"
proof (induction s i n k rule: utf8_span.induct)
  case (1 s i n k)
  show ?case
  proof (cases "n > 0 \<and> k > 0")
    case False
    then show ?thesis
      by (subst utf8_span.simps) (cases k; cases n; simp)
  next
    case True
    then obtain k' where k: "k = Suc k'" by (cases k) auto
    let ?cs = "take (n - 1) (drop (Suc i) s)"
    let ?j = "length (takeWhile is_continuation ?cs)"
    have jn: "?j \<le> n - 1"
      using length_takeWhile_le [of is_continuation ?cs] by simp
    have lt: "i < length s" using True "1.prems" by simp
    have t: "take n (drop i s) = s ! i # ?cs"
      using True lt by (cases n) (simp_all add: Cons_nth_drop_Suc [symmetric])
    have c: "utf8_cont s i (n - 1) = (i + 1 + ?j, n - 1 - ?j)"
      using True "1.prems" by (intro utf8_cont_run) simp
    have "i + 1 + ?j + (n - 1 - ?j) \<le> length s"
      using True "1.prems" jn by linarith
    from "1.IH" [OF True c [symmetric] this]
    have ih: "utf8_span s (i + 1 + ?j) (n - 1 - ?j) (k - 1) =
        i + 1 + ?j + utf8_prefix_len (k - 1) (take (n - 1 - ?j) (drop (i + 1 + ?j) s))"
      by simp
    have "dropWhile is_continuation ?cs = drop ?j ?cs"
      by (rule dropWhile_eq_drop)
    also have "\<dots> = take (n - 1 - ?j) (drop (i + 1 + ?j) s)"
      by (simp add: drop_take add.commute)
    finally have d: "dropWhile is_continuation ?cs = take (n - 1 - ?j) (drop (i + 1 + ?j) s)" .
    have "utf8_span s i n k = utf8_span s (i + 1 + ?j) (n - 1 - ?j) (k - 1)"
      using True c by (subst utf8_span.simps) simp
    also have "\<dots> = i + utf8_prefix_len k (take n (drop i s))"
    proof -
      have "utf8_prefix_len k (take n (drop i s)) =
          Suc ?j + utf8_prefix_len k' (dropWhile is_continuation ?cs)"
        unfolding t k by (simp only: utf8_prefix_len.simps)
      then have "utf8_prefix_len k (take n (drop i s)) =
          Suc ?j + utf8_prefix_len (k - 1) (take (n - 1 - ?j) (drop (i + 1 + ?j) s))"
        unfolding d k by (simp only: diff_Suc_1)
      with ih show ?thesis by linarith
    qed
    finally show ?thesis .
  qed
qed

lemma takeWhile_exact:
  assumes "list_all P (take j xs)" and "j \<le> length xs"
    and "drop j xs = [] \<or> \<not> P (hd (drop j xs))"
  shows "takeWhile P xs = take j xs \<and> dropWhile P xs = drop j xs"
proof -
  have xs: "xs = take j xs @ drop j xs" by simp
  have a: "\<forall>x\<in>set (take j xs). P x"
    using assms(1) by (simp add: list_all_iff)
  have "takeWhile P (take j xs @ drop j xs) = take j xs"
    using a assms(3) by (cases "drop j xs") (simp_all add: takeWhile_append2)
  moreover have "dropWhile P (take j xs @ drop j xs) = drop j xs"
    using a assms(3) by (cases "drop j xs") (simp_all add: dropWhile_append2)
  ultimately show ?thesis by simp
qed

lemma utf8_valid_head:
  "utf8_valid t \<Longrightarrow> t = [] \<or> \<not> is_continuation (hd t)"
  by (cases t) (auto simp: Let_def lead_not_continuation)

lemma utf8_length_conts: "list_all is_continuation xs \<Longrightarrow> utf8_length (xs @ r) = utf8_length r"
  by (induction xs) (simp_all add: utf8_length_def)

lemma utf8_prefix_valid:
  "utf8_valid t \<Longrightarrow>
   utf8_prefix_len k t \<le> length t
   \<and> utf8_valid (take (utf8_prefix_len k t) t)
   \<and> utf8_valid (drop (utf8_prefix_len k t) t)
   \<and> utf8_length (take (utf8_prefix_len k t) t) = min k (utf8_length t)"
proof (induction k arbitrary: t)
  case 0
  then show ?case by (simp add: utf8_length_def)
next
  case (Suc k)
  show ?case
  proof (cases t)
    case Nil
    then show ?thesis by (simp add: utf8_length_def)
  next
    case (Cons c cs)
    let ?l = "utf8_seq_len c"
    let ?r = "drop (?l - 1) cs"
    from Suc.prems Cons have v: "0 < ?l" "?l - 1 \<le> length cs"
      "list_all is_continuation (take (?l - 1) cs)" "utf8_valid ?r"
      by (simp_all add: Let_def)
    have "?r = [] \<or> \<not> is_continuation (hd ?r)"
      using v(4) by (rule utf8_valid_head)
    with takeWhile_exact [OF v(3) v(2)]
    have tw: "takeWhile is_continuation cs = take (?l - 1) cs"
      and dw: "dropWhile is_continuation cs = ?r"
      by simp_all
    let ?m = "utf8_prefix_len k ?r"
    from Suc.IH [OF v(4)]
    have ih: "?m \<le> length ?r" "utf8_valid (take ?m ?r)" "utf8_valid (drop ?m ?r)"
      "utf8_length (take ?m ?r) = min k (utf8_length ?r)"
      by simp_all
    have len: "utf8_prefix_len (Suc k) t = Suc (?l - 1) + ?m"
      using v(2) by (simp add: Cons tw dw)
    have tk: "take (Suc (?l - 1) + ?m) t = c # take (?l - 1) cs @ take ?m ?r"
      using v(2) by (simp add: Cons take_add)
    have dr: "drop (Suc (?l - 1) + ?m) t = drop ?m ?r"
      by (simp add: Cons add.commute)
    have nc: "\<not> is_continuation c"
      using v(1) by (rule lead_not_continuation)
    have 1: "utf8_prefix_len (Suc k) t \<le> length t"
      using ih(1) v(2) unfolding len by (simp add: Cons)
    have 2: "utf8_valid (c # take (?l - 1) cs @ take ?m ?r)"
      using v ih(2) by (simp add: Let_def)
    have "utf8_length (c # take (?l - 1) cs @ take ?m ?r) = Suc (utf8_length (take ?m ?r))"
      using utf8_length_conts [OF v(3), of "take ?m ?r"] nc by (simp add: utf8_length_def)
    moreover have "utf8_length t = Suc (utf8_length ?r)"
    proof -
      have "t = c # take (?l - 1) cs @ ?r" by (simp add: Cons)
      then have "utf8_length t = utf8_length (c # take (?l - 1) cs @ ?r)" by simp
      also have "\<dots> = Suc (utf8_length ?r)"
        using utf8_length_conts [OF v(3), of ?r] nc by (simp add: utf8_length_def)
      finally show ?thesis .
    qed
    ultimately have 4: "utf8_length (c # take (?l - 1) cs @ take ?m ?r)
        = min (Suc k) (utf8_length t)"
      using ih(4) by simp
    show ?thesis
      unfolding len tk dr using 1 2 ih(3) 4 unfolding len by simp
  qed
qed

text \<open>
  Claim C6. For a span of \<open>n\<close> bytes at \<open>s\<close> that is UTF-8 text and every bound \<open>k\<close>,
  \<^verbatim>\<open>utf8strn(s, n, k)\<close> emits, through \<^verbatim>\<open>str\<close>, the first \<open>m\<close> bytes of the span for some
  \<open>m \<le> n\<close>; the emitted bytes and the rest of the span are both UTF-8 text, so the cut
  is on a character boundary; and the emitted bytes hold \<open>k\<close> characters, or all
  characters of the span when there are fewer.
\<close>

theorem utf8strn_boundary:
  assumes n: "n \<le> length s" and v: "utf8_valid (take n s)"
  shows "\<exists>m\<le>n. utf8strn env out s n k = str env out (take m (take n s))
           \<and> utf8_valid (take m (take n s))
           \<and> utf8_valid (drop m (take n s))
           \<and> utf8_length (take m (take n s)) = min k (utf8_length (take n s))
           \<and> utf8_length (take m (take n s)) \<le> k"
proof -
  let ?t = "take n s"
  let ?m = "utf8_prefix_len k ?t"
  have sp: "utf8_span s 0 n k = ?m"
    using utf8_span_prefix [of 0 n s k] n by simp
  from utf8_prefix_valid [OF v, of k]
  have p: "?m \<le> length ?t" "utf8_valid (take ?m ?t)" "utf8_valid (drop ?m ?t)"
    "utf8_length (take ?m ?t) = min k (utf8_length ?t)"
    by blast+
  have mn: "?m \<le> n" using p(1) n by simp
  then have "take ?m ?t = take ?m s" by (simp add: min_def)
  then have "utf8strn env out s n k = str env out (take ?m ?t)"
    by (simp add: utf8strn_def sp)
  moreover have "utf8_length (take ?m ?t) \<le> k"
    unfolding p(4) by simp
  ultimately show ?thesis
    using mn p(2,3,4) by blast
qed

text \<open>
  The seven bytes of \<open>a\<close>, U+00E9 (C3 A9), U+20AC (E2 82 AC) and \<open>x\<close> with \<open>k = 2\<close>:
  the span emitted is the first three bytes.
\<close>

theorem utf8strn_boundary_witness:
  "7 \<le> length [CHR 0x61, CHR 0xC3, CHR 0xA9, CHR 0xE2, CHR 0x82, CHR 0xAC, CHR 0x78]
   \<and> utf8_valid (take 7 [CHR 0x61, CHR 0xC3, CHR 0xA9, CHR 0xE2, CHR 0x82, CHR 0xAC, CHR 0x78])
   \<and> utf8_span [CHR 0x61, CHR 0xC3, CHR 0xA9, CHR 0xE2, CHR 0x82, CHR 0xAC, CHR 0x78] 0 7 2 = 3
   \<and> (\<exists>m\<le>7. utf8strn plain_env (Output_init plain_env open_sink)
                 [CHR 0x61, CHR 0xC3, CHR 0xA9, CHR 0xE2, CHR 0x82, CHR 0xAC, CHR 0x78] 7 2
               = str plain_env (Output_init plain_env open_sink)
                   (take m [CHR 0x61, CHR 0xC3, CHR 0xA9, CHR 0xE2, CHR 0x82, CHR 0xAC, CHR 0x78])
          \<and> utf8_valid
               (take m [CHR 0x61, CHR 0xC3, CHR 0xA9, CHR 0xE2, CHR 0x82, CHR 0xAC, CHR 0x78])
          \<and> utf8_valid
               (drop m [CHR 0x61, CHR 0xC3, CHR 0xA9, CHR 0xE2, CHR 0x82, CHR 0xAC, CHR 0x78])
          \<and> utf8_length
               (take m [CHR 0x61, CHR 0xC3, CHR 0xA9, CHR 0xE2, CHR 0x82, CHR 0xAC, CHR 0x78]) = 2)"
proof -
  let ?s = "[CHR 0x61, CHR 0xC3, CHR 0xA9, CHR 0xE2, CHR 0x82, CHR 0xAC, CHR 0x78]"
  have n: "7 \<le> length ?s"
    by simp
  have t: "take 7 ?s = ?s"
    by simp
  have v: "utf8_valid (take 7 ?s)"
    unfolding t by (simp add: utf8_seq_len_def is_continuation_range)
  have sp: "utf8_span ?s 0 7 2 = 3"
    by code_simp
  have l: "utf8_length ?s = 4"
    by (simp add: utf8_length_def is_continuation_range)
  have mn: "min 2 (4::nat) = 2"
    by simp
  from utf8strn_boundary [OF n v, of plain_env "Output_init plain_env open_sink" 2]
  have "\<exists>m\<le>7. utf8strn plain_env (Output_init plain_env open_sink) ?s 7 2
               = str plain_env (Output_init plain_env open_sink) (take m ?s)
          \<and> utf8_valid (take m ?s) \<and> utf8_valid (drop m ?s)
          \<and> utf8_length (take m ?s) = 2"
    unfolding t l mn by blast
  with n v sp show ?thesis by blast
qed

subsection \<open>A flush that fails\<close>

lemma write_block_sync:
  "write_block env (out\<lparr>sync := s\<rparr>) d =
     (case write_block env out d of (failed, out') \<Rightarrow> (failed, out'\<lparr>sync := s\<rparr>))"
  by (simp add: write_block_def split: prod.splits)

lemma write_blocks_sync:
  "write_blocks env (out\<lparr>sync := s\<rparr>) ds =
     (case write_blocks env out ds of (failed, out') \<Rightarrow> (failed, out'\<lparr>sync := s\<rparr>))"
proof (induction ds arbitrary: out)
  case Nil
  show ?case by simp
next
  case (Cons d ds)
  obtain failed o' where w: "write_block env out d = (failed, o')"
    by (cases "write_block env out d")
  then have "write_block env (out\<lparr>sync := s\<rparr>) d = (failed, o'\<lparr>sync := s\<rparr>)"
    by (simp add: write_block_sync)
  with w Cons.IH [of o'] show ?case
    by (cases failed) simp_all
qed

lemma write_blocks_append:
  "write_blocks env out (xs @ ys) =
     (case write_blocks env out xs of
        (failed, out') \<Rightarrow> if failed then (True, out') else write_blocks env out' ys)"
proof (induction xs arbitrary: out)
  case Nil
  show ?case by simp
next
  case (Cons d ds)
  obtain failed o' where w: "write_block env out d = (failed, o')"
    by (cases "write_block env out d")
  with Cons.IH [of o'] show ?case
    by (cases failed) simp_all
qed

lemma write_blocks_keeps:
  "write_blocks env out ds = (failed, out') \<Longrightarrow>
   eof out' = eof out \<and> sync out' = sync out \<and> buf_m out' = buf_m out \<and> cur_m out' = cur_m out
   \<and> buffers_m out' = buffers_m out \<and> mode_m out' = mode_m out"
proof (induction ds arbitrary: out)
  case Nil
  then show ?case by simp
next
  case (Cons d ds)
  obtain f1 o1 where w: "write_block env out d = (f1, o1)"
    by (cases "write_block env out d")
  note k = write_block_keeps [OF w]
  show ?case
  proof (cases f1)
    case True
    with w Cons.prems k show ?thesis by simp
  next
    case False
    with w Cons.prems have "write_blocks env o1 ds = (failed, out')" by simp
    from Cons.IH [OF this] k show ?thesis by simp
  qed
qed

lemma flush_buffers_blocks:
  "flush_buffers env out bs =
     (case write_blocks env out (map block bs) of
        (failed, out') \<Rightarrow> if failed then Output_cancel env out' else out')"
proof (induction bs arbitrary: out)
  case Nil
  show ?case by simp
next
  case (Cons b bs)
  obtain failed o' where w: "write_block env out (block b) = (failed, o')"
    by (cases "write_block env out (block b)")
  with Cons.IH [of o'] show ?case
    by (cases failed) simp_all
qed

lemma Output_acquire_sync:
  "Output_acquire env out = Some oa \<Longrightarrow> \<exists>s. oa = out\<lparr>sync := s\<rparr>"
  by (auto simp: Output_acquire_def split: option.splits call_result.splits
           intro: exI [of _ "sync out"])

lemma flush_blocks_sync: "flush_blocks (out\<lparr>sync := s\<rparr>) = flush_blocks out"
  by (simp add: flush_blocks_def)

lemma sink_fails_sync: "sink_fails env (out\<lparr>sync := s\<rparr>) = sink_fails env out"
  by (simp add: sink_fails_def write_blocks_sync flush_blocks_sync split: prod.splits)

text \<open>On an Output that is not at EOF the two write phases set the flag exactly when the sink fails.\<close>

lemma flush_last_blocks:
  assumes e: "\<not> eof out"
  shows "eof (flush_last env (flush_buffers env out (take (buf_m out) (buffers_m out))))
         \<longleftrightarrow> sink_fails env out"
proof -
  let ?bs = "take (buf_m out) (buffers_m out)"
  let ?t = "map (buffers_m out ! buf_m out) [0..<cur_m out]"
  obtain f1 o1 where w1: "write_blocks env out (map block ?bs) = (f1, o1)"
    by (cases "write_blocks env out (map block ?bs)")
  note k1 = write_blocks_keeps [OF w1]
  have fb: "flush_buffers env out ?bs = (if f1 then Output_cancel env o1 else o1)"
    using w1 by (simp add: flush_buffers_blocks)
  show ?thesis
  proof (cases f1)
    case True
    then have "eof (flush_last env (flush_buffers env out ?bs))"
      using fb by (simp add: flush_last_def Output_cancel_def)
    moreover have "sink_fails env out"
      using True w1 by (simp add: sink_fails_def flush_blocks_def write_blocks_append)
    ultimately show ?thesis by simp
  next
    case False
    then have fb': "flush_buffers env out ?bs = o1"
      using fb by simp
    have e1: "\<not> eof o1" using e k1 by simp
    show ?thesis
    proof (cases "cur_m out > 0")
      case c: False
      then have "flush_last env o1 =
          (if fflush_fails (file_sink o1) then Output_cancel env o1 else o1)"
        using e1 k1 by (simp add: flush_last_def)
      moreover have "sink_fails env out = fflush_fails (file_sink o1)"
        using c False w1 by (simp add: sink_fails_def flush_blocks_def)
      ultimately show ?thesis
        using fb' e1 by (simp add: Output_cancel_def)
    next
      case c: True
      obtain f2 o2 where w2: "write_block env o1 ?t = (f2, o2)"
        by (cases "write_block env o1 ?t")
      note k2 = write_block_keeps [OF w2]
      have t: "map (buffers_m o1 ! buf_m o1) [0..<cur_m o1] = ?t"
        using k1 by simp
      have fl: "flush_last env o1 =
          (if f2 then Output_cancel env o2
           else if fflush_fails (file_sink o2) then Output_cancel env o2 else o2)"
        using e1 c k1 k2 w2 unfolding flush_last_def Let_def t
        by (simp add: Output_cancel_def)
      have "write_blocks env out (flush_blocks out) = (f2, o2)"
        using c False w1 w2 by (simp add: flush_blocks_def write_blocks_append)
      then have "sink_fails env out = (f2 \<or> fflush_fails (file_sink o2))"
        by (simp add: sink_fails_def)
      then show ?thesis
        using fb' fl e1 k1 k2 by (simp add: Output_cancel_def)
    qed
  qed
qed

lemma flush_eof_iff:
  assumes e: "\<not> eof out" and b: "buf_m out \<noteq> 0 \<or> cur_m out > 0"
    and fl: "flush env out = Some out1"
  shows "eof out1 \<longleftrightarrow> sink_fails env out"
proof -
  obtain oa where oa: "Output_acquire env out = Some oa"
    using e fl b by (auto simp: flush_def split: option.splits)
  have o1: "out1 = (flush_last env (flush_buffers env oa (take (buf_m oa) (buffers_m oa))))
                      \<lparr>buf_m := 0, cur_m := 0\<rparr>"
    using e fl b oa by (simp add: flush_def Let_def)
  have ea: "\<not> eof oa"
    using e Output_acquire_keeps [OF oa] by simp
  from Output_acquire_sync [OF oa] obtain s where "oa = out\<lparr>sync := s\<rparr>" ..
  then have "sink_fails env oa = sink_fails env out"
    by (simp add: sink_fails_sync)
  with flush_last_blocks [OF ea, of env] o1 show ?thesis
    by simp
qed

lemma flush_resets:
  assumes fl: "flush env out = Some out1" and b: "buf_m out \<noteq> 0 \<or> cur_m out > 0"
  shows "buf_m out1 = 0 \<and> cur_m out1 = 0 \<and> buffers_m out1 = buffers_m out"
proof (cases "eof out")
  case True
  with fl b show ?thesis by (auto simp: flush_def)
next
  case False
  then obtain oa where oa: "Output_acquire env out = Some oa"
    using fl b by (auto simp: flush_def split: option.splits)
  have o1: "out1 = (flush_last env (flush_buffers env oa (take (buf_m oa) (buffers_m oa))))
                      \<lparr>buf_m := 0, cur_m := 0\<rparr>"
    using False fl b oa by (simp add: flush_def Let_def)
  show ?thesis
    unfolding o1
    using flush_last_keeps [of env "flush_buffers env oa (take (buf_m oa) (buffers_m oa))"]
      flush_buffers_keeps [of env oa "take (buf_m oa) (buffers_m oa)"]
      Output_acquire_keeps [OF oa]
    by simp
qed

lemma flush_chain: "chain_ok out \<Longrightarrow> flush env out = Some out' \<Longrightarrow> chain_ok out'"
proof (cases "buf_m out \<noteq> 0 \<or> cur_m out > 0")
  case True
  assume c: "chain_ok out" and fl: "flush env out = Some out'"
  from flush_resets [OF fl True] c show ?thesis
    by (auto simp: chain_ok_def)
next
  case False
  assume "chain_ok out" "flush env out = Some out'"
  with False show ?thesis by (simp add: flush_def)
qed

lemma next_buffer_chain:
  assumes c: "chain_ok out" and n: "next_buffer env out = Some out'"
  shows "chain_ok out'"
proof -
  have adv: "chain_ok (if Suc (buf_m o1) = length (buffers_m o1)
                then grow o1 else o1\<lparr>buf_m := Suc (buf_m o1), cur_m := 0\<rparr>)"
    if "chain_ok o1" for o1
    using that by (auto simp: chain_ok_def grow_def)
  show ?thesis
  proof (cases "mode_m out AND HOLD = 0")
    case False
    with n adv [OF c] show ?thesis by (simp add: next_buffer_def)
  next
    case True
    show ?thesis
    proof (cases "sync out")
      case None
      with True n have "flush env out = Some out'" by (simp add: next_buffer_def)
      with c show ?thesis by (rule flush_chain)
    next
      case (Some s)
      obtain ok s' where t: "try_acquire s (lock_m out) = (ok, s')"
        by (cases "try_acquire s (lock_m out)")
      have c1: "chain_ok (out\<lparr>sync := Some s'\<rparr>)"
        using c by (simp add: chain_ok_def)
      show ?thesis
      proof (cases ok)
        case True
        with \<open>mode_m out AND HOLD = 0\<close> Some t n
        have "flush env (out\<lparr>sync := Some s'\<rparr>) = Some out'"
          by (simp add: next_buffer_def)
        with c1 show ?thesis by (rule flush_chain)
      next
        case False
        with \<open>mode_m out AND HOLD = 0\<close> Some t n adv [OF c1] show ?thesis
          by (simp add: next_buffer_def)
      qed
    qed
  qed
qed

lemma next_buffer_cur: "next_buffer env out = Some out' \<Longrightarrow> cur_m out \<ge> SIZE \<Longrightarrow> cur_m out' = 0"
  by (auto simp: next_buffer_def flush_def grow_def Let_def SIZE_def
           split: if_splits option.splits prod.splits bool.splits)

lemma chr_chain:
  assumes c: "chain_ok out" and n: "chr env out ch = Some out'"
  shows "chain_ok out'"
proof -
  have store: "chain_ok (o1\<lparr>buffers_m := (buffers_m o1)
                         [buf_m o1 := (buffers_m o1 ! buf_m o1)(cur_m o1 := ch)],
                     cur_m := Suc (cur_m o1)\<rparr>)"
    if "chain_ok o1" "cur_m o1 < SIZE" for o1
    using that by (simp add: chain_ok_def)
  show ?thesis
  proof (cases "cur_m out \<ge> SIZE")
    case False
    with n store [OF c] show ?thesis by (auto simp: chr_def)
  next
    case True
    then obtain o1 where o1: "next_buffer env out = Some o1"
      using n by (auto simp: chr_def split: option.splits)
    have "chain_ok o1" using c o1 by (rule next_buffer_chain)
    moreover have "cur_m o1 < SIZE"
      using next_buffer_cur [OF o1 True] by (simp add: SIZE_def)
    ultimately show ?thesis
      using store [of o1] n True o1 by (auto simp: chr_def)
  qed
qed

lemma copy_in_chain:
  "chain_ok out \<Longrightarrow> cur_m out + length d \<le> SIZE \<Longrightarrow> chain_ok (copy_in out d)"
  by (simp add: chain_ok_def copy_in_def)

lemma str_chain:
  "chain_ok out \<Longrightarrow> str env out s = Some out' \<Longrightarrow> chain_ok out'"
proof (induction env out s rule: str.induct)
  case (1 env out s)
  show ?case
  proof (cases "cur_m out + length s \<ge> SIZE")
    case False
    with "1.prems" show ?thesis
      by (subst (asm) str.simps) (auto intro: copy_in_chain)
  next
    case True
    let ?k = "SIZE - cur_m out"
    obtain o1 where o1: "next_buffer env (copy_in out (take ?k s)) = Some o1"
      and r: "str env o1 (drop ?k s) = Some out'"
      using "1.prems"(2) True
      by (subst (asm) str.simps) (auto simp: Let_def split: option.splits)
    have "chain_ok (copy_in out (take ?k s))"
      using "1.prems"(1) True by (intro copy_in_chain) (auto simp: chain_ok_def)
    then have "chain_ok o1"
      using o1 by (rule next_buffer_chain)
    from "1.IH" [OF True refl o1 this r] show ?thesis .
  qed
qed

lemma pad_chain:
  "chain_ok out \<Longrightarrow> pad env out c w n = Some out' \<Longrightarrow> chain_ok out'"
proof (induction env out c w n rule: pad.induct)
  case (1 env out c w n)
  show ?case
  proof (cases "w > n")
    case False
    with "1.prems" show ?thesis
      by (subst (asm) pad.simps) simp
  next
    case True
    then obtain o1 where o1: "chr env out c = Some o1" and r: "pad env o1 c (w - 1) n = Some out'"
      using "1.prems"(2) by (subst (asm) pad.simps) (auto split: option.splits)
    have "chain_ok o1" using "1.prems"(1) o1 by (rule chr_chain)
    from "1.IH" [OF True o1 this r] show ?thesis .
  qed
qed

lemma hex_chain: "chain_ok out \<Longrightarrow> hex env out i w = Some out' \<Longrightarrow> chain_ok out'"
  by (auto simp: hex_def Let_def split: option.splits dest: pad_chain str_chain)

lemma num_chain: "chain_ok out \<Longrightarrow> num env out i w = Some out' \<Longrightarrow> chain_ok out'"
  by (auto simp: num_def Let_def split: option.splits dest: pad_chain str_chain)

lemma oct_chain: "chain_ok out \<Longrightarrow> oct env out i = Some out' \<Longrightarrow> chain_ok out'"
  by (auto simp: oct_def Let_def split: option.splits) (meson chr_chain)

lemma uri_chain: "chain_ok out \<Longrightarrow> uri env out s = Some out' \<Longrightarrow> chain_ok out'"
proof (induction s arbitrary: out)
  case Nil
  then show ?case by simp
next
  case (Cons c s)
  show ?case
  proof (cases "c = CHR 0x00")
    case True
    with Cons.prems show ?thesis by simp
  next
    case nz: False
    show ?thesis
    proof (cases "(0x20::nat) \<le> of_char c \<and> (of_char c :: nat) \<le> 0x7e
              \<and> c \<noteq> CHR ''%'' \<and> c \<noteq> CHR '';''")
      case True
      have "uri env out (c # s) =
          (case chr env out c of None \<Rightarrow> None | Some out' \<Rightarrow> uri env out' s)"
        by (simp only: uri.simps nz True if_True if_False simp_thms)
      then obtain o1 where o1: "chr env out c = Some o1" and r: "uri env o1 s = Some out'"
        using Cons.prems(2) by (auto split: option.splits)
      have "chain_ok o1" using Cons.prems(1) o1 by (rule chr_chain)
      then show ?thesis using r by (rule Cons.IH)
    next
      case False
      have "uri env out (c # s) =
          (case chr env out (CHR ''%'') of
              None \<Rightarrow> None
            | Some out1 \<Rightarrow>
                (case hex env out1 (of_nat (of_char c)) 2 of
                   None \<Rightarrow> None
                 | Some out2 \<Rightarrow> uri env out2 s))"
        by (simp only: uri.simps nz False if_False)
      then obtain o1 o2 where o1: "chr env out (CHR ''%'') = Some o1"
        and o2: "hex env o1 (of_nat (of_char c)) 2 = Some o2" and r: "uri env o2 s = Some out'"
        using Cons.prems(2) by (auto split: option.splits)
      have "chain_ok o1" using Cons.prems(1) o1 by (rule chr_chain)
      then have "chain_ok o2" using o2 by (rule hex_chain)
      then show ?thesis using r by (rule Cons.IH)
    qed
  qed
qed

lemma nl_chain: "chain_ok out \<Longrightarrow> nl env out lf = Some out' \<Longrightarrow> chain_ok out'"
  by (auto simp: nl_def check_flush_def split: option.splits if_splits)
     (meson chr_chain flush_chain)+

lemma str_z_chain: "chain_ok out \<Longrightarrow> str_z env out s = Some out' \<Longrightarrow> chain_ok out'"
  by (auto simp: str_z_def split: list.splits dest: chr_chain str_chain)

lemma emit_chain: "chain_ok out \<Longrightarrow> emit env out e = Some out' \<Longrightarrow> chain_ok out'"
  by (cases e)
     (auto simp: utf8strn_def
           dest: chr_chain str_chain str_z_chain uri_chain num_chain hex_chain oct_chain
                 nl_chain flush_chain)

lemma output_ops_chain:
  "chain_ok out \<Longrightarrow> output_ops env out es = Some out' \<Longrightarrow> chain_ok out'"
proof (induction es arbitrary: out)
  case Nil
  then show ?case by simp
next
  case (Cons e es)
  then obtain o1 where o1: "emit env out e = Some o1" and r: "output_ops env o1 es = Some out'"
    by (auto split: option.splits)
  have "chain_ok o1" using Cons.prems(1) o1 by (rule emit_chain)
  then show ?case using r by (rule Cons.IH)
qed

text \<open>Storing does not read the EOF flag.\<close>

lemma chr_stores:
  assumes c: "chain_ok out" and r: "cur_m out < SIZE"
  shows "\<exists>out'. chr env out ch = Some out' \<and> out' \<noteq> out \<and> pending out' = pending out @ [ch]
            \<and> cur_m out' = Suc (cur_m out)"
proof -
  let ?o = "out\<lparr>buffers_m := (buffers_m out)
                         [buf_m out := (buffers_m out ! buf_m out)(cur_m out := ch)],
                     cur_m := Suc (cur_m out)\<rparr>"
  have "chr env out ch = Some ?o"
    using r by (simp add: chr_def)
  moreover have "pending ?o = pending out @ [ch]"
    using c by (simp add: pending_def chain_ok_def)
  moreover have "cur_m ?o \<noteq> cur_m out" by simp
  then have "?o \<noteq> out" by metis
  ultimately show ?thesis by simp
qed

lemma str_stores:
  assumes c: "chain_ok out" and r: "cur_m out + length s < SIZE"
  shows "\<exists>out'. str env out s = Some out' \<and> pending out' = pending out @ s
            \<and> cur_m out' = cur_m out + length s"
proof -
  have "str env out s = Some (copy_in out s)"
    using r by (subst str.simps) simp
  moreover have "pending (copy_in out s) = pending out @ s"
    using c by (simp add: pending_def copy_in_def chain_ok_def memcpy_map)
  ultimately show ?thesis by (simp add: copy_in_def)
qed

text \<open>
  Claim C2 says that after a failed flush every emit operation is a no-op. It is not:
  \<^verbatim>\<open>chr\<close> does not read the EOF flag. On the closed sink the flush of one pending
  byte is a short write and sets the flag; \<^verbatim>\<open>chr('b')\<close> afterwards stores the byte and
  moves the cursor, so that \<open>b\<close> is pending.
\<close>

theorem flush_failure_counterexample:
  "flush plain_env unflushed_output = Some failed_output
   \<and> eof failed_output
   \<and> pending failed_output = []
   \<and> chr plain_env failed_output (CHR ''b'') \<noteq> Some failed_output
   \<and> map_option pending (chr plain_env failed_output (CHR ''b'')) = Some ''b''"
proof -
  have "flush plain_env unflushed_output = Some failed_output"
    by (simp add: flush_def Output_acquire_def flush_last_def write_block_def fwrite_def
        Output_cancel_def failed_output_def unflushed_output_def plain_env_def closed_sink_def
        Let_def)
  moreover have "eof failed_output"
    by (simp add: failed_output_def)
  moreover have "pending failed_output = []"
    by (simp add: pending_def failed_output_def unflushed_output_def)
  moreover have c: "chr plain_env failed_output (CHR ''b'') =
      Some (failed_output\<lparr>buffers_m := [(buffer_with (CHR ''a''))(0 := CHR ''b'')],
                           cur_m := Suc 0\<rparr>)"
    by (simp add: chr_def failed_output_def unflushed_output_def SIZE_def)
  moreover have "failed_output\<lparr>buffers_m := [(buffer_with (CHR ''a''))(0 := CHR ''b'')],
                           cur_m := Suc 0\<rparr> \<noteq> failed_output"
  proof
    assume "failed_output\<lparr>buffers_m := [(buffer_with (CHR ''a''))(0 := CHR ''b'')],
                           cur_m := Suc 0\<rparr> = failed_output"
    then have "cur_m (failed_output\<lparr>buffers_m := [(buffer_with (CHR ''a''))(0 := CHR ''b'')],
                           cur_m := Suc 0\<rparr>) = cur_m failed_output"
      by (rule arg_cong)
    then show False
      by (simp add: failed_output_def unflushed_output_def)
  qed
  moreover have "pending (failed_output\<lparr>buffers_m := [(buffer_with (CHR ''a''))(0 := CHR ''b'')],
                           cur_m := Suc 0\<rparr>) = ''b''"
    by code_simp
  ultimately show ?thesis
    by simp
qed

lemma not_fits: "\<not> fits r n \<longleftrightarrow> (\<exists>k. r = Some k \<and> k < n)"
  by (cases r) (auto simp: fits_def)

text \<open>
  Claim C2, amended. Take a \<^verbatim>\<open>flush()\<close> that returns, of an Output that is not at EOF and
  has data pending. On return the EOF flag is set exactly when the sink failed during
  the flush: a block was not written in full (a short \<^verbatim>\<open>fwrite\<close>, or
  \<^verbatim>\<open>flush_truncated_lines\<close> returning true) or \<^verbatim>\<open>fflush\<close> failed; with
  \<^verbatim>\<open>flag_width == 0\<close> that is: the sink has room for fewer bytes than are pending, or
  its \<^verbatim>\<open>fflush\<close> fails. When the sink failed, the attached Sync, if any, is cancelled,
  and whatever emit and flush operations follow, they return, the flag stays set and the
  sink receives no further byte. The emits are not no-ops: in every state reached, with
  the chain well formed, \<^verbatim>\<open>chr\<close> and \<^verbatim>\<open>str\<close> still store their bytes at the cursor of the
  current buffer and advance it, so that the bytes are pending.
\<close>

theorem flush_failure_absorbing:
  assumes e: "\<not> eof out" and b: "buf_m out \<noteq> 0 \<or> cur_m out > 0"
    and fl: "flush env out = Some out1"
  shows "(eof out1 \<longleftrightarrow> sink_fails env out)
       \<and> (flag_width env = 0 \<longrightarrow>
            (sink_fails env out \<longleftrightarrow>
               (\<exists>r. room (file_sink out) = Some r \<and> r < length (pending out))
               \<or> \<not> flush_ok (file_sink out)))
       \<and> (sink_fails env out \<longrightarrow>
            (\<forall>s. sync out1 = Some s \<longrightarrow> cancelled (UNDEFINED_SIZE env) s)
          \<and> (\<forall>es. \<exists>out2. output_ops env out1 es = Some out2 \<and> eof out2
                     \<and> file_sink out2 = file_sink out1
                     \<and> (chain_ok out \<longrightarrow>
                          (\<forall>c. cur_m out2 < SIZE \<longrightarrow>
                             (\<exists>o3. chr env out2 c = Some o3 \<and> o3 \<noteq> out2
                                 \<and> pending o3 = pending out2 @ [c]
                                 \<and> cur_m o3 = Suc (cur_m out2)))
                        \<and> (\<forall>s. cur_m out2 + length s < SIZE \<longrightarrow>
                             (\<exists>o3. str env out2 s = Some o3
                                 \<and> pending o3 = pending out2 @ s
                                 \<and> cur_m o3 = cur_m out2 + length s)))))"
proof (intro conjI impI)
  show iff: "eof out1 \<longleftrightarrow> sink_fails env out"
    using e b fl by (rule flush_eof_iff)
  {
    assume w: "flag_width env = 0"
    obtain oa where oa: "Output_acquire env out = Some oa"
      using e fl b by (auto simp: flush_def split: option.splits)
    have "\<not> eof out1 \<longleftrightarrow>
        fits (room (file_sink out)) (length (pending out)) \<and> flush_ok (file_sink out)"
    proof
      assume "\<not> eof out1"
      from flush_alive [OF w e fl this b] show
        "fits (room (file_sink out)) (length (pending out)) \<and> flush_ok (file_sink out)"
        by simp
    next
      assume "fits (room (file_sink out)) (length (pending out)) \<and> flush_ok (file_sink out)"
      then have "\<exists>o1. flush env out = Some o1 \<and> \<not> eof o1"
        using flush_fits [OF w e _ _ oa] by blast
      with fl show "\<not> eof out1" by simp
    qed
    with iff show "sink_fails env out \<longleftrightarrow>
               (\<exists>r. room (file_sink out) = Some r \<and> r < length (pending out))
               \<or> \<not> flush_ok (file_sink out)"
      using not_fits [of "room (file_sink out)" "length (pending out)"] by blast
  }
  assume "sink_fails env out"
  with iff have e1: "eof out1" by simp
  then have "dead env out1"
    using e fl flush_dead by blast
  then show "\<forall>s. sync out1 = Some s \<longrightarrow> cancelled (UNDEFINED_SIZE env) s"
    by (simp add: dead_def)
  show "\<forall>es. \<exists>out2. output_ops env out1 es = Some out2 \<and> eof out2
                     \<and> file_sink out2 = file_sink out1
                     \<and> (chain_ok out \<longrightarrow>
                          (\<forall>c. cur_m out2 < SIZE \<longrightarrow>
                             (\<exists>o3. chr env out2 c = Some o3 \<and> o3 \<noteq> out2
                                 \<and> pending o3 = pending out2 @ [c]
                                 \<and> cur_m o3 = Suc (cur_m out2)))
                        \<and> (\<forall>s. cur_m out2 + length s < SIZE \<longrightarrow>
                             (\<exists>o3. str env out2 s = Some o3
                                 \<and> pending o3 = pending out2 @ s
                                 \<and> cur_m o3 = cur_m out2 + length s)))"
  proof
    fix es
    from output_ops_eof [OF e1, of env es] obtain out2 where
      o2: "output_ops env out1 es = Some out2" and u: "untouched out1 out2" by blast
    have e2: "eof out2" "file_sink out2 = file_sink out1"
      using u e1 by (simp_all add: untouched_def)
    have st: "(\<forall>c. cur_m out2 < SIZE \<longrightarrow>
                 (\<exists>o3. chr env out2 c = Some o3 \<and> o3 \<noteq> out2
                     \<and> pending o3 = pending out2 @ [c] \<and> cur_m o3 = Suc (cur_m out2)))
            \<and> (\<forall>s. cur_m out2 + length s < SIZE \<longrightarrow>
                 (\<exists>o3. str env out2 s = Some o3 \<and> pending o3 = pending out2 @ s
                     \<and> cur_m o3 = cur_m out2 + length s))"
      if c: "chain_ok out"
    proof -
      have "chain_ok out1" using c fl by (rule flush_chain)
      then have c2: "chain_ok out2" using o2 by (rule output_ops_chain)
      show ?thesis
        using chr_stores [OF c2, of env] str_stores [OF c2, of _ env] by blast
    qed
    show "\<exists>out2. output_ops env out1 es = Some out2 \<and> eof out2
                     \<and> file_sink out2 = file_sink out1
                     \<and> (chain_ok out \<longrightarrow>
                          (\<forall>c. cur_m out2 < SIZE \<longrightarrow>
                             (\<exists>o3. chr env out2 c = Some o3 \<and> o3 \<noteq> out2
                                 \<and> pending o3 = pending out2 @ [c]
                                 \<and> cur_m o3 = Suc (cur_m out2)))
                        \<and> (\<forall>s. cur_m out2 + length s < SIZE \<longrightarrow>
                             (\<exists>o3. str env out2 s = Some o3
                                 \<and> pending o3 = pending out2 @ s
                                 \<and> cur_m o3 = cur_m out2 + length s)))"
      using o2 e2 st by (intro exI [of _ out2]) blast
  qed
qed

text \<open>
  With \<^verbatim>\<open>flag_width == 80\<close> and a failing \<^verbatim>\<open>flush_truncated_lines\<close>, the flush of the
  Output attached to a Sync sets the flag and cancels the Sync; afterwards \<^verbatim>\<open>chr('b')\<close>
  and \<^verbatim>\<open>str("cd")\<close> leave their bytes pending, and nothing reaches the sink. With
  \<^verbatim>\<open>flag_width == 0\<close> the flush of one pending byte to the closed sink fails.
\<close>

theorem flush_failure_absorbing_witness:
  "\<not> eof synced_output \<and> cur_m synced_output > 0 \<and> chain_ok synced_output
   \<and> flag_width wide_env \<noteq> 0 \<and> sink_fails wide_env synced_output
   \<and> (\<exists>out1 s. flush wide_env synced_output = Some out1 \<and> eof out1
          \<and> sync out1 = Some s \<and> cancelled (UNDEFINED_SIZE wide_env) s
          \<and> (\<exists>out2. output_ops wide_env out1 [Chr (CHR ''b''), Nl False, Flush] = Some out2
                 \<and> eof out2 \<and> file_sink out2 = open_sink)
          \<and> (\<exists>o3. chr wide_env out1 (CHR ''b'') = Some o3 \<and> o3 \<noteq> out1
                 \<and> pending o3 = ''b'' \<and> cur_m o3 = 1)
          \<and> (\<exists>o3. str wide_env out1 ''cd'' = Some o3 \<and> pending o3 = ''cd'' \<and> cur_m o3 = 2))
   \<and> \<not> eof unflushed_output \<and> cur_m unflushed_output > 0
   \<and> flag_width plain_env = 0 \<and> room (file_sink unflushed_output) = Some 0
   \<and> 0 < length (pending unflushed_output)
   \<and> flush plain_env unflushed_output = Some failed_output
   \<and> sink_fails plain_env unflushed_output \<and> eof failed_output"
proof -
  have e: "\<not> eof synced_output" and b: "buf_m synced_output \<noteq> 0 \<or> cur_m synced_output > 0"
    and c: "chain_ok synced_output"
    by (simp_all add: synced_output_def chain_ok_def SIZE_def)
  have w: "flag_width wide_env \<noteq> 0"
    by (simp add: wide_env_def)
  have acq: "Output_acquire wide_env synced_output =
      Some (synced_output\<lparr>sync := Some ((Sync_init ORDERED)\<lparr>mutex := Some 0\<rparr>)\<rparr>)"
    by (simp add: Output_acquire_def acquire_def owns_lock_def synced_output_def Sync_init_def
        wide_env_def)
  obtain out1 where fl: "flush wide_env synced_output = Some out1"
    using e b acq by (simp add: flush_def Let_def)
  have s1: "sync out1 \<noteq> None" and b1: "buf_m out1 = 0" "cur_m out1 = 0"
    and f1: "file_sink out1 = open_sink"
    using fl e b acq
    by (auto simp: flush_def Let_def flush_last_def write_block_def Output_cancel_def
        synced_output_def wide_env_def)
  then obtain s where s: "sync out1 = Some s" by blast
  have p1: "pending out1 = []"
    using b1 by (simp add: pending_empty)
  note inst = flush_failure_absorbing [OF e b fl]
  have sf: "sink_fails wide_env synced_output"
    by (simp add: sink_fails_def flush_blocks_def write_block_def synced_output_def wide_env_def)
  from inst sf have e1: "eof out1" by blast
  from inst sf s have cs: "cancelled (UNDEFINED_SIZE wide_env) s" by blast
  from inst sf have
    all: "\<forall>es. \<exists>out2. output_ops wide_env out1 es = Some out2 \<and> eof out2
                     \<and> file_sink out2 = file_sink out1
                     \<and> (chain_ok synced_output \<longrightarrow>
                          (\<forall>c. cur_m out2 < SIZE \<longrightarrow>
                             (\<exists>o3. chr wide_env out2 c = Some o3 \<and> o3 \<noteq> out2
                                 \<and> pending o3 = pending out2 @ [c]
                                 \<and> cur_m o3 = Suc (cur_m out2)))
                        \<and> (\<forall>s. cur_m out2 + length s < SIZE \<longrightarrow>
                             (\<exists>o3. str wide_env out2 s = Some o3
                                 \<and> pending o3 = pending out2 @ s
                                 \<and> cur_m o3 = cur_m out2 + length s)))"
    by blast
  from all have "\<exists>out2. output_ops wide_env out1 [Chr (CHR ''b''), Nl False, Flush] = Some out2
      \<and> eof out2 \<and> file_sink out2 = file_sink out1
                     \<and> (chain_ok synced_output \<longrightarrow>
                          (\<forall>c. cur_m out2 < SIZE \<longrightarrow>
                             (\<exists>o3. chr wide_env out2 c = Some o3 \<and> o3 \<noteq> out2
                                 \<and> pending o3 = pending out2 @ [c]
                                 \<and> cur_m o3 = Suc (cur_m out2)))
                        \<and> (\<forall>s. cur_m out2 + length s < SIZE \<longrightarrow>
                             (\<exists>o3. str wide_env out2 s = Some o3
                                 \<and> pending o3 = pending out2 @ s
                                 \<and> cur_m o3 = cur_m out2 + length s)))"
    by (rule spec)
  then have ops: "\<exists>out2. output_ops wide_env out1 [Chr (CHR ''b''), Nl False, Flush] = Some out2
      \<and> eof out2 \<and> file_sink out2 = open_sink"
    unfolding f1 by blast
  from all have "\<exists>out2. output_ops wide_env out1 [] = Some out2
      \<and> eof out2 \<and> file_sink out2 = file_sink out1
                     \<and> (chain_ok synced_output \<longrightarrow>
                          (\<forall>c. cur_m out2 < SIZE \<longrightarrow>
                             (\<exists>o3. chr wide_env out2 c = Some o3 \<and> o3 \<noteq> out2
                                 \<and> pending o3 = pending out2 @ [c]
                                 \<and> cur_m o3 = Suc (cur_m out2)))
                        \<and> (\<forall>s. cur_m out2 + length s < SIZE \<longrightarrow>
                             (\<exists>o3. str wide_env out2 s = Some o3
                                 \<and> pending o3 = pending out2 @ s
                                 \<and> cur_m o3 = cur_m out2 + length s)))"
    by (rule spec)
  then have st: "(\<forall>c. cur_m out1 < SIZE \<longrightarrow>
                             (\<exists>o3. chr wide_env out1 c = Some o3 \<and> o3 \<noteq> out1
                                 \<and> pending o3 = pending out1 @ [c]
                                 \<and> cur_m o3 = Suc (cur_m out1)))"
     "(\<forall>s. cur_m out1 + length s < SIZE \<longrightarrow>
                             (\<exists>o3. str wide_env out1 s = Some o3
                                 \<and> pending o3 = pending out1 @ s
                                 \<and> cur_m o3 = cur_m out1 + length s))"
    using c by simp_all
  have lt: "cur_m out1 < SIZE" "cur_m out1 + length ''cd'' < SIZE"
    using b1 by (simp_all add: SIZE_def)
  from st(1) lt(1) have ch: "\<exists>o3. chr wide_env out1 (CHR ''b'') = Some o3 \<and> o3 \<noteq> out1
                 \<and> pending o3 = ''b'' \<and> cur_m o3 = 1"
    unfolding p1 b1 by simp
  from st(2) lt(2) have "\<exists>o3. str wide_env out1 ''cd'' = Some o3
       \<and> pending o3 = pending out1 @ ''cd'' \<and> cur_m o3 = cur_m out1 + length ''cd''"
    by blast
  then have sr: "\<exists>o3. str wide_env out1 ''cd'' = Some o3 \<and> pending o3 = ''cd'' \<and> cur_m o3 = 2"
    unfolding p1 b1 by (simp add: numeral_2_eq_2)
  have first: "\<exists>out1 s. flush wide_env synced_output = Some out1 \<and> eof out1
          \<and> sync out1 = Some s \<and> cancelled (UNDEFINED_SIZE wide_env) s
          \<and> (\<exists>out2. output_ops wide_env out1 [Chr (CHR ''b''), Nl False, Flush] = Some out2
                 \<and> eof out2 \<and> file_sink out2 = open_sink)
          \<and> (\<exists>o3. chr wide_env out1 (CHR ''b'') = Some o3 \<and> o3 \<noteq> out1
                 \<and> pending o3 = ''b'' \<and> cur_m o3 = 1)
          \<and> (\<exists>o3. str wide_env out1 ''cd'' = Some o3 \<and> pending o3 = ''cd'' \<and> cur_m o3 = 2)"
    using fl e1 s cs ops ch sr by blast
  have e': "\<not> eof unflushed_output"
    and b': "buf_m unflushed_output \<noteq> 0 \<or> cur_m unflushed_output > 0"
    by (simp_all add: unflushed_output_def)
  have w': "flag_width plain_env = 0"
    by (simp add: plain_env_def)
  have fl': "flush plain_env unflushed_output = Some failed_output"
    by (simp add: flush_def Output_acquire_def flush_last_def write_block_def fwrite_def
        Output_cancel_def failed_output_def unflushed_output_def plain_env_def closed_sink_def
        Let_def)
  have r: "room (file_sink unflushed_output) = Some 0"
    by (simp add: unflushed_output_def closed_sink_def)
  have p: "0 < length (pending unflushed_output)"
    by (simp add: pending_def unflushed_output_def)
  note inst' = flush_failure_absorbing [OF e' b' fl']
  from inst' w' r p have sf': "sink_fails plain_env unflushed_output" by blast
  with inst' have "eof failed_output" by blast
  with first e b c w sf e' b' w' r p fl' sf' show ?thesis
    by (simp add: synced_output_def unflushed_output_def)
qed

section \<open>Properties of the flag toggles\<close>

lemma clear_flags_app: "clear_flags is f j \<longleftrightarrow> j \<notin> set is \<and> f j"
  by (induction "is" arbitrary: f) auto

lemma flags_inv_shrink:
  assumes inv: "flags_inv f" and le: "\<And>j. g j \<Longrightarrow> f j"
    and r: "g 17 = f 17" "g 18 = f 18"
  shows "flags_inv g"
proof -
  have e: "exclusive f" and d: "depth_recurses f"
    using inv by (simp_all add: flags_inv_def)
  have "\<not> (g 0 \<and> g 1)" "\<not> (g 0 \<and> g 3)" "\<not> (g 1 \<and> g 3)" "\<not> (g 17 \<and> g 18)"
    using e le unfolding exclusive_def by blast+
  moreover have "\<forall>i\<in>{31..<40}. \<forall>j\<in>{31..<40}. g i \<and> g j \<longrightarrow> i = j"
    using e le unfolding exclusive_def by blast
  moreover have "\<forall>i\<in>{31..<40}. g i \<longrightarrow> g 17 \<or> g 18"
    using d le unfolding depth_recurses_def r by blast
  ultimately show ?thesis
    unfolding flags_inv_def exclusive_def depth_recurses_def by blast
qed

lemma flags_inv_other:
  assumes inv: "flags_inv g" and i: "i \<notin> {0, 1, 3, 17, 18}" "i \<notin> {31..<40}"
  shows "flags_inv (g(i := b))"
proof -
  have s: "(g(i := b)) 0 = g 0" "(g(i := b)) 1 = g 1" "(g(i := b)) 3 = g 3"
    "(g(i := b)) 17 = g 17" "(g(i := b)) 18 = g 18"
    using i(1) by auto
  have t: "(g(i := b)) j = g j" if "j \<in> {31..<40}" for j
    using i(2) that by auto
  have "\<forall>a\<in>{31..<40}. \<forall>c\<in>{31..<40}. (g(i := b)) a \<and> (g(i := b)) c \<longrightarrow> a = c"
    using inv t unfolding flags_inv_def exclusive_def by blast
  moreover have "\<forall>a\<in>{31..<40}. (g(i := b)) a \<longrightarrow> (g(i := b)) 17 \<or> (g(i := b)) 18"
    using inv t unfolding flags_inv_def depth_recurses_def s by blast
  moreover have "\<not> ((g(i := b)) 0 \<and> (g(i := b)) 1)" "\<not> ((g(i := b)) 0 \<and> (g(i := b)) 3)"
    "\<not> ((g(i := b)) 1 \<and> (g(i := b)) 3)" "\<not> ((g(i := b)) 17 \<and> (g(i := b)) 18)"
    using inv unfolding flags_inv_def exclusive_def s by blast+
  ultimately show ?thesis
    unfolding flags_inv_def exclusive_def depth_recurses_def by blast
qed

lemma clear_keeps:
  assumes "17 \<notin> set L" "18 \<notin> set L"
  shows "(\<forall>j. clear_flags L f j \<longrightarrow> f j) \<and> clear_flags L f 17 = f 17
         \<and> clear_flags L f 18 = f 18"
  using assms by (simp add: clear_flags_app)

lemma switch_on_shrinks:
  assumes "k \<noteq> CHR ''R''" "k \<noteq> CHR ''r''" "k \<notin> set ''123456789''"
  shows "(\<forall>j. switch_on k f j \<longrightarrow> f j) \<and> switch_on k f 17 = f 17
         \<and> switch_on k f 18 = f 18"
  using assms unfolding switch_on_def
  by (simp add: clear_keeps del: set_simps)


lemma digit_key_all:
  "\<forall>i\<in>set [31, 32, 33, 34, 35, 36, 37, 38, 39]. flag_keys ! i \<in> set ''123456789''"
  by (simp add: flag_keys_def)

lemma digit_key:
  assumes "i \<in> {31..<40}"
  shows "flag_keys ! i \<in> set ''123456789''"
proof -
  from assms have "i \<in> set [31, 32, 33, 34, 35, 36, 37, 38, 39]"
    by auto
  with digit_key_all show ?thesis by blast
qed

lemma switch_digit_all:
  "\<forall>k\<in>set ''123456789''. switch_on k f =
           (let f' = clear_flags [31..<40] f
            in if \<not> f' 17 \<and> \<not> f' 18 then f'(17 := True) else f')
         \<and> switch_off k f = f"
  by (simp add: switch_on_def switch_off_def)

lemma other_key_all:
  "\<forall>i\<in>set [2, 4, 5, 6, 7, 8, 9, 10, 11, 12, 13, 14, 15, 16, 19, 20, 21, 22, 23, 24, 25, 26,
             27, 28, 29, 30, 40, 41, 42, 43, 44, 45].
     flag_keys ! i \<noteq> CHR ''R'' \<and> flag_keys ! i \<noteq> CHR ''r''
     \<and> flag_keys ! i \<notin> set ''123456789''"
  by (simp add: flag_keys_def)

lemma flags_inv_context:
  assumes inv: "flags_inv f" and r: "h 17 = f 17" "h 18 = f 18"
    and d: "\<And>j. j \<in> {31..<40} \<Longrightarrow> h j = f j"
    and c: "\<not> (h 0 \<and> h 1)" "\<not> (h 0 \<and> h 3)" "\<not> (h 1 \<and> h 3)"
  shows "flags_inv h"
proof -
  have "\<forall>a\<in>{31..<40}. \<forall>b\<in>{31..<40}. h a \<and> h b \<longrightarrow> a = b"
    using inv d unfolding flags_inv_def exclusive_def by blast
  moreover have "\<forall>a\<in>{31..<40}. h a \<longrightarrow> h 17 \<or> h 18"
    using inv d unfolding flags_inv_def depth_recurses_def r by blast
  moreover have "\<not> (h 17 \<and> h 18)"
    using inv unfolding flags_inv_def exclusive_def r by blast
  ultimately show ?thesis
    using c unfolding flags_inv_def exclusive_def depth_recurses_def by blast
qed

lemma flags_inv_depth:
  assumes inv: "flags_inv f" and c: "h 0 = f 0" "h 1 = f 1" "h 3 = f 3"
    and d: "\<And>j. j \<in> {31..<40} \<Longrightarrow> h j \<Longrightarrow> j = i"
    and r: "(\<exists>j\<in>{31..<40}. h j) \<longrightarrow> h 17 \<or> h 18" "\<not> (h 17 \<and> h 18)"
  shows "flags_inv h"
proof -
  have "\<forall>a\<in>{31..<40}. \<forall>b\<in>{31..<40}. h a \<and> h b \<longrightarrow> a = b"
    using d by blast
  moreover have "\<forall>a\<in>{31..<40}. h a \<longrightarrow> h 17 \<or> h 18"
    using r(1) by blast
  moreover have "\<not> (h 0 \<and> h 1)" "\<not> (h 0 \<and> h 3)" "\<not> (h 1 \<and> h 3)"
    using inv unfolding flags_inv_def exclusive_def c by blast+
  ultimately show ?thesis
    using r(2) unfolding flags_inv_def exclusive_def depth_recurses_def by blast
qed

lemma other_index:
  assumes "(i::nat) < 46" "i \<notin> {0, 1, 3, 17, 18}" "i \<notin> {31..<40}"
  shows "i \<in> set [2, 4, 5, 6, 7, 8, 9, 10, 11, 12, 13, 14, 15, 16, 19, 20, 21, 22, 23, 24, 25,
                 26, 27, 28, 29, 30, 40, 41, 42, 43, 44, 45]"
  using assms by simp arith

lemma toggle_inv:
  assumes inv: "flags_inv f" and i: "i < 46"
  shows "flags_inv ((if \<not> f i then switch_on (flag_keys ! i) f
                     else switch_off (flag_keys ! i) f)
                    (i := \<not> (if \<not> f i then switch_on (flag_keys ! i) f
                               else switch_off (flag_keys ! i) f) i))"
proof -
  let ?g = "if \<not> f i then switch_on (flag_keys ! i) f else switch_off (flag_keys ! i) f"
  have off: "flags_inv (f(j := False))" if "j \<noteq> 17" "j \<noteq> 18" for j
  proof (rule flags_inv_shrink [OF inv])
    show "(f(j := False)) k \<Longrightarrow> f k" for k
      by (simp split: if_splits)
    show "(f(j := False)) 17 = f 17" "(f(j := False)) 18 = f 18"
      using that by simp_all
  qed
  consider "i = 0" | "i = 1" | "i = 3" | "i = 17" | "i = 18" | "i \<in> {31..<40}"
    | "i \<notin> {0, 1, 3, 17, 18}" "i \<notin> {31..<40}"
    by blast
  then show ?thesis
  proof cases
    case 1
    have g: "?g = (if \<not> f 0 then clear_flags [1, 3, 15, 28] f else f)"
      by (simp add: 1 flag_keys_def switch_on_def switch_off_def)
    show ?thesis
    proof (cases "f 0")
      case True
      then have "?g(i := \<not> ?g i) = f(0 := False)" by (simp only: g) (simp add: 1)
      with off [of 0] show ?thesis by simp
    next
      case False
      then have "?g(i := \<not> ?g i) = (clear_flags [1, 3, 15, 28] f)(0 := True)"
        by (simp only: g) (simp add: 1 clear_flags_app)
      moreover have "flags_inv ((clear_flags [1, 3, 15, 28] f)(0 := True))"
        by (rule flags_inv_context [OF inv]) (auto simp: clear_flags_app)
      ultimately show ?thesis by simp
    qed
  next
    case 2
    have g: "?g = (if \<not> f 1 then clear_flags [0, 3, 15, 28] f else f)"
      by (simp add: 2 flag_keys_def switch_on_def switch_off_def)
    show ?thesis
    proof (cases "f 1")
      case True
      then have "?g(i := \<not> ?g i) = f(1 := False)" by (simp only: g) (simp add: 2)
      with off [of 1] show ?thesis by simp
    next
      case False
      then have "?g(i := \<not> ?g i) = (clear_flags [0, 3, 15, 28] f)(1 := True)"
        by (simp only: g) (simp add: 2 clear_flags_app)
      moreover have "flags_inv ((clear_flags [0, 3, 15, 28] f)(1 := True))"
        by (rule flags_inv_context [OF inv]) (auto simp: clear_flags_app)
      ultimately show ?thesis by simp
    qed
  next
    case 3
    have g: "?g = (if \<not> f 3 then clear_flags [0, 1, 15, 28] f else f)"
      by (simp add: 3 flag_keys_def switch_on_def switch_off_def)
    show ?thesis
    proof (cases "f 3")
      case True
      then have "?g(i := \<not> ?g i) = f(3 := False)" by (simp only: g) (simp add: 3)
      with off [of 3] show ?thesis by simp
    next
      case False
      then have "?g(i := \<not> ?g i) = (clear_flags [0, 1, 15, 28] f)(3 := True)"
        by (simp only: g) (simp add: 3 clear_flags_app)
      moreover have "flags_inv ((clear_flags [0, 1, 15, 28] f)(3 := True))"
        by (rule flags_inv_context [OF inv]) (auto simp: clear_flags_app)
      ultimately show ?thesis by simp
    qed
  next
    case 4
    have g: "?g = (if \<not> f 17 then clear_flags (18 # [31..<40]) f else clear_flags [31..<40] f)"
      by (simp add: 4 flag_keys_def switch_on_def switch_off_def)
    show ?thesis
    proof (cases "f 17")
      case True
      then have "?g(i := \<not> ?g i) = (clear_flags [31..<40] f)(17 := False)"
        by (simp only: g) (simp add: 4 clear_flags_app)
      moreover have "flags_inv ((clear_flags [31..<40] f)(17 := False))"
        by (rule flags_inv_depth [OF inv, where i = 0])
           (auto simp: clear_flags_app simp del: clear_flags.simps)
      ultimately show ?thesis by simp
    next
      case False
      then have "?g(i := \<not> ?g i) = (clear_flags (18 # [31..<40]) f)(17 := True)"
        by (simp only: g) (simp add: 4 clear_flags_app)
      moreover have "flags_inv ((clear_flags (18 # [31..<40]) f)(17 := True))"
        by (rule flags_inv_depth [OF inv, where i = 0])
           (auto simp: clear_flags_app simp del: clear_flags.simps)
      ultimately show ?thesis by simp
    qed
  next
    case 5
    have g: "?g = (if \<not> f 18 then clear_flags (17 # [31..<40]) f else clear_flags [31..<40] f)"
      by (simp add: 5 flag_keys_def switch_on_def switch_off_def)
    show ?thesis
    proof (cases "f 18")
      case True
      then have "?g(i := \<not> ?g i) = (clear_flags [31..<40] f)(18 := False)"
        by (simp only: g) (simp add: 5 clear_flags_app)
      moreover have "flags_inv ((clear_flags [31..<40] f)(18 := False))"
        by (rule flags_inv_depth [OF inv, where i = 0])
           (auto simp: clear_flags_app simp del: clear_flags.simps)
      ultimately show ?thesis by simp
    next
      case False
      then have "?g(i := \<not> ?g i) = (clear_flags (17 # [31..<40]) f)(18 := True)"
        by (simp only: g) (simp add: 5 clear_flags_app)
      moreover have "flags_inv ((clear_flags (17 # [31..<40]) f)(18 := True))"
        by (rule flags_inv_depth [OF inv, where i = 0])
           (auto simp: clear_flags_app simp del: clear_flags.simps)
      ultimately show ?thesis by simp
    qed
  next
    case 6
    from switch_digit_all [of f] digit_key [OF 6]
    have d: "switch_on (flag_keys ! i) f =
           (let f' = clear_flags [31..<40] f
            in if \<not> f' 17 \<and> \<not> f' 18 then f'(17 := True) else f')"
        "switch_off (flag_keys ! i) f = f"
      by blast+
    let ?c = "clear_flags [31..<40] f"
    have c: "?c j \<longleftrightarrow> j \<notin> {31..<40} \<and> f j" for j
      by (simp add: clear_flags_app)
    show ?thesis
    proof (cases "f i")
      case True
      then have "?g(i := \<not> ?g i) = f(i := False)"
        by (simp add: d)
      moreover have "i \<noteq> 17" "i \<noteq> 18" using 6 by auto
      ultimately show ?thesis using off [of i] by simp
    next
      case False
      let ?h = "(if \<not> ?c 17 \<and> \<not> ?c 18 then ?c(17 := True) else ?c)(i := True)"
      have "?g(i := \<not> ?g i) = ?h"
        using False 6 by (auto simp: d Let_def c)
      moreover have "flags_inv ?h"
      proof (rule flags_inv_depth [OF inv, where i = i])
        show "?h 0 = f 0" "?h 1 = f 1" "?h 3 = f 3"
          using 6 by (auto simp: c)
        show "j = i" if "j \<in> {31..<40}" "?h j" for j
          using that by (auto simp: c split: if_splits)
        show "(\<exists>j\<in>{31..<40}. ?h j) \<longrightarrow> ?h 17 \<or> ?h 18"
          using 6 by (auto simp: c)
        show "\<not> (?h 17 \<and> ?h 18)"
          using 6 inv by (auto simp: c flags_inv_def exclusive_def)
      qed
      ultimately show ?thesis by simp
    qed
  next
    case 7
    with i have "i \<in> set [2, 4, 5, 6, 7, 8, 9, 10, 11, 12, 13, 14, 15, 16, 19, 20, 21, 22, 23,
                 24, 25, 26, 27, 28, 29, 30, 40, 41, 42, 43, 44, 45]"
      by (intro other_index)
    with other_key_all have k: "flag_keys ! i \<noteq> CHR ''R''" "flag_keys ! i \<noteq> CHR ''r''"
      "flag_keys ! i \<notin> set ''123456789''"
      by blast+
    from switch_on_shrinks [OF k, of f]
    have on: "\<And>j. switch_on (flag_keys ! i) f j \<Longrightarrow> f j"
      "switch_on (flag_keys ! i) f 17 = f 17" "switch_on (flag_keys ! i) f 18 = f 18"
      by blast+
    have offk: "switch_off (flag_keys ! i) f = f"
      using k by (simp add: switch_off_def)
    have "flags_inv ?g"
    proof (rule flags_inv_shrink [OF inv])
      show "?g j \<Longrightarrow> f j" for j
        using on(1) offk by (auto split: if_splits)
      show "?g 17 = f 17" "?g 18 = f 18"
        using on(2,3) offk by auto
    qed
    then show ?thesis
      using 7 by (rule flags_inv_other)
  qed
qed

lemma find_key_range:
  "find_key key ks n = Some i \<Longrightarrow> n \<le> i \<and> i < n + length ks \<and> of_char (ks ! (i - n)) = key"
proof (induction ks arbitrary: n)
  case Nil
  then show ?case by simp
next
  case (Cons k ks)
  show ?case
  proof (cases "of_char k = key")
    case True
    with Cons.prems show ?thesis by auto
  next
    case False
    with Cons.prems have "find_key key ks (Suc n) = Some i" by simp
    from Cons.IH [OF this] show ?thesis
      by (auto simp: Suc_diff_le)
  qed
qed

lemma length_flag_keys: "length flag_keys = 46"
  by (simp add: flag_keys_def)

lemma switch_plain:
  "switch_on (CHR ''P'') f = f" "switch_off (CHR ''P'') f = f"
  "switch_on (CHR ''z'') f = f" "switch_off (CHR ''z'') f = f"
  by (simp_all add: switch_on_def switch_off_def)

lemma meta_inv:
  assumes inv: "flags_inv (flags_q st)"
  shows "flags_inv (flags_q (meta no_perl no_libz key st))"
proof (cases "find_key key flag_keys 0")
  case None
  with inv show ?thesis by (simp add: meta_def)
next
  case (Some i)
  from find_key_range [OF Some] have i: "i < 46"
    by (simp add: length_flag_keys)
  let ?k = "flag_keys ! i"
  let ?f = "if \<not> flags_q st i then switch_on ?k (flags_q st) else switch_off ?k (flags_q st)"
  show ?thesis
  proof (cases "(no_perl \<and> ?k = CHR ''P'') \<or> (no_libz \<and> ?k = CHR ''z'')")
    case True
    then have "?k = CHR ''P'' \<or> ?k = CHR ''z''" by blast
    then have "?f = flags_q st"
      by (auto simp: switch_plain)
    moreover have "flags_q (meta no_perl no_libz key st) = ?f"
      unfolding meta_def Let_def Some option.case if_P [OF True] by simp
    ultimately show ?thesis using inv by simp
  next
    case False
    have "flags_q (meta no_perl no_libz key st) = ?f(i := \<not> ?f i)"
      unfolding meta_def Let_def Some option.case if_not_P [OF False] by simp
    with toggle_inv [OF inv i] show ?thesis by simp
  qed
qed

lemma metas_inv:
  "flags_inv (flags_q st) \<Longrightarrow> flags_inv (flags_q (metas no_perl no_libz st keys))"
  unfolding metas_def
  by (induction keys arbitrary: st) (simp_all add: meta_inv)

text \<open>
  Claim C8 starts from any table in which each exclusion group has at most one member
  set. That is not enough for a depth digit to imply recursion: in the table with only
  \<^verbatim>\<open>recurse 1 level\<close> set each group has at most one member set, and after the key \<open>v\<close>
  (\<^verbatim>\<open>invert matches\<close>) the digit is still set while neither \<open>R\<close> nor \<open>r\<close> is.
\<close>

theorem meta_exclusion_counterexample:
  "exclusive only_depth_1
   \<and> flags_q (metas False False \<lparr>flags_q = only_depth_1, updated_q = False, message_q = False\<rparr>
                [of_char (CHR ''v'')]) 31
   \<and> \<not> flags_q (metas False False \<lparr>flags_q = only_depth_1, updated_q = False, message_q = False\<rparr>
                [of_char (CHR ''v'')]) 17
   \<and> \<not> flags_q (metas False False \<lparr>flags_q = only_depth_1, updated_q = False, message_q = False\<rparr>
                [of_char (CHR ''v'')]) 18"
proof -
  have "exclusive only_depth_1"
    by (simp add: exclusive_def only_depth_1_def)
  moreover have "find_key (of_char (CHR ''v'')) flag_keys 0 = Some 22"
    by (simp add: flag_keys_def)
  moreover have "flag_keys ! 22 = CHR ''v''"
    by (simp add: flag_keys_def)
  ultimately show ?thesis
    by (simp add: metas_def meta_def Let_def switch_on_def switch_off_def only_depth_1_def)
qed

text \<open>
  Claim C8, amended. Starting from any table in which each exclusion group has at most
  one member set and a depth digit is set only together with \<open>R\<close> or \<open>r\<close>, after every
  sequence of \<^verbatim>\<open>meta\<close> keys, in any build configuration: at most one of \<open>A\<close>, \<open>B\<close>, \<open>C\<close>
  is set, at most one depth digit is set, \<open>R\<close> and \<open>r\<close> are not both set, and a depth
  digit is set only together with \<open>R\<close> or \<open>r\<close>.
\<close>

theorem meta_exclusion_groups:
  assumes "exclusive (flags_q st)" and "depth_recurses (flags_q st)"
  shows "exclusive (flags_q (metas no_perl no_libz st keys))
       \<and> depth_recurses (flags_q (metas no_perl no_libz st keys))"
  using metas_inv [of st no_perl no_libz keys] assms
  by (simp add: flags_inv_def)

text \<open>
  From the empty table the keys \<open>2\<close>, \<open>A\<close>, \<open>r\<close>, \<open>3\<close>, \<open>B\<close> leave \<open>B\<close>, \<open>r\<close> and the
  depth \<open>3\<close> set: \<open>2\<close> switched \<open>R\<close> on, \<open>r\<close> replaced it and cleared the depth.
\<close>

theorem meta_exclusion_groups_witness:
  "exclusive (flags_q no_flags) \<and> depth_recurses (flags_q no_flags)
   \<and> flags_q (metas False False no_flags example_keys) 1
   \<and> flags_q (metas False False no_flags example_keys) 18
   \<and> flags_q (metas False False no_flags example_keys) 33
   \<and> \<not> flags_q (metas False False no_flags example_keys) 0
   \<and> \<not> flags_q (metas False False no_flags example_keys) 17
   \<and> \<not> flags_q (metas False False no_flags example_keys) 32
   \<and> exclusive (flags_q (metas False False no_flags example_keys))
   \<and> depth_recurses (flags_q (metas False False no_flags example_keys))"
proof -
  have e: "exclusive (flags_q no_flags)" and d: "depth_recurses (flags_q no_flags)"
    by (simp_all add: exclusive_def depth_recurses_def no_flags_def)
  have "flags_q (metas False False no_flags example_keys) 1"
    "flags_q (metas False False no_flags example_keys) 18"
    "flags_q (metas False False no_flags example_keys) 33"
    "\<not> flags_q (metas False False no_flags example_keys) 0"
    "\<not> flags_q (metas False False no_flags example_keys) 17"
    "\<not> flags_q (metas False False no_flags example_keys) 32"
    by code_simp+
  with meta_exclusion_groups [OF e d, of False False example_keys] e d show ?thesis
    by blast
qed

section \<open>Properties of the result lines\<close>

text \<open>\<^verbatim>\<open>fetch\<close> keeps the two vectors in step: it appends to both or to neither.\<close>

lemma store_row_keeps:
  assumes "length (selected_q q) = length (view_q q)" and "0 \<le> rows_q q"
    and "rows_q q \<le> int (length (view_q q))" and "length (view_q q) < 2 ^ 31"
  shows "\<exists>q'. store_row q chunk incomplete = Some q'
       \<and> length (selected_q q') = length (view_q q')"
proof -
  have "size_t_of_int (rows_q q) = nat (rows_q q)"
    using assms by (simp add: size_t_of_int_def)
  moreover have "int_of_size_t (length (view_q q)) = int (length (view_q q))"
  proof -
    have "int_of_size_t (length (view_q q)) = signed_take_bit 31 (int (length (view_q q)))"
      by (simp add: int_of_size_t_def signed_of_nat)
    also have "\<dots> = int (length (view_q q))"
      using assms(4) by (intro signed_take_bit_int_eq_self) simp_all
    finally show ?thesis .
  qed
  ultimately show ?thesis
    using assms by (auto simp: store_row_def Let_def)
qed


end
